theory Spec2Isabelle
  imports Complex_Main "HOL-Library.Multiset"
begin

section \<open>JavaScript values used by App.tsx\<close>

text \<open>
  Every number the puzzle logic handles (tile values, indices, grid sizes, move counts,
  timestamps) is an integer, so a JavaScript number is an \<open>int\<close>.
  \<open>Math.floor (a / b)\<close> is \<open>a div b\<close> for a positive divisor (HOL rounds towards
  minus infinity, as \<open>Math.floor\<close> does). The operator \<open>%\<close> takes the sign of the
  dividend; it is \<open>js_rem\<close>. A zero divisor (which gives \<open>NaN\<close> or \<open>Infinity\<close> in
  JavaScript) does not occur: every grid size comes from the catalog \<open>difficulties\<close>,
  and the theorems below take a positive size.
\<close>

definition js_rem :: "int \<Rightarrow> int \<Rightarrow> int" where
  "js_rem a b = sgn a * (\<bar>a\<bar> mod \<bar>b\<bar>)"

text \<open>\<open>Array.prototype.indexOf\<close>: the first index holding the element, or \<open>-1\<close>.\<close>

fun indexOf :: "'a list \<Rightarrow> 'a \<Rightarrow> int" where
  "indexOf [] v = -1"
| "indexOf (x # xs) v =
     (if x = v then 0 else (let k = indexOf xs v in if k < 0 then -1 else k + 1))"

text \<open>Reading \<open>xs[i]\<close>: \<open>None\<close> stands for \<open>undefined\<close>, the result out of range.\<close>

definition js_at :: "'a list \<Rightarrow> int \<Rightarrow> 'a option" where
  "js_at xs i = (if 0 \<le> i \<and> i < int (length xs) then Some (xs ! nat i) else None)"

text \<open>
  The array held in the state \<open>tiles\<close> is typed \<open>number[]\<close>, but the swap of
  \<open>attemptMove\<close> can store \<open>undefined\<close> in it (a read out of range), so a cell of
  that array is an \<open>int option\<close> with \<open>None\<close> for \<open>undefined\<close>. A hole (an index
  below \<open>length\<close> that was never written) is modelled as \<open>None\<close> too: the spread
  \<open>[...tiles]\<close> turns holes into \<open>undefined\<close>, \<open>indexOf\<close> finds a number in neither,
  and \<open>isSolved\<close> only sees an array with holes after a write of \<open>undefined\<close> at the
  blank's old index, where \<open>every\<close> already fails.
\<close>

type_synonym cell = "int option"

definition cell_at :: "cell list \<Rightarrow> int \<Rightarrow> cell" where
  "cell_at xs i = (case js_at xs i of None \<Rightarrow> None | Some c \<Rightarrow> c)"

text \<open>
  The assignment \<open>xs[i] = v\<close>. Inside the array it replaces the element; at or beyond
  \<open>length\<close> JavaScript extends the array, leaving holes in between; with a negative
  \<open>i\<close> it sets a property named \<open>"-3"\<close>, which is no element of the array (and is
  dropped by the next spread), so the elements stay as they are.
\<close>

definition js_set :: "cell list \<Rightarrow> int \<Rightarrow> cell \<Rightarrow> cell list" where
  "js_set xs i v =
     (if i < 0 then xs
      else if i < int (length xs) then xs[nat i := v]
      else xs @ replicate (nat i - length xs) None @ [v])"

datatype js_error = EmptyArrayError | SyntaxError | SecurityError | TypeError

section \<open>Catalogs\<close>

text \<open>
  The fields of the source carry the name of their record here (\<open>image_id\<close> for
  \<open>id\<close> of \<open>DemonImage\<close>), since \<open>id\<close> and \<open>size\<close> are constants of HOL and
  the records share field names. For the same reason a variable \<open>size\<close> of the source
  is \<open>sz\<close>.
\<close>

datatype PuzzleStatus = Idle | Playing | Solved

record DemonImage =
  image_id :: string
  image_label :: string
  image_description :: string
  image_file :: string

record DifficultyOption =
  difficulty_id :: string
  difficulty_label :: string
  difficulty_size :: int

record ScoreEntry =
  entry_id :: string
  entry_imageId :: string
  entry_imageLabel :: string
  entry_difficultyId :: string
  entry_difficultyLabel :: string
  entry_size :: int
  moves :: int
  finishedAt :: int

definition demonImages :: "DemonImage list" where
  "demonImages =
     [\<lparr>image_id = ''starlit-reaper'', image_label = ''Starlit Reaper'',
       image_description = ''Neon twin-scythe idol hunter'', image_file = ''/images/starlit-reaper.svg''\<rparr>,
      \<lparr>image_id = ''midnight-sigil'', image_label = ''Midnight Sigil'',
       image_description = ''Blue fire rune shield'', image_file = ''/images/midnight-sigil.svg''\<rparr>,
      \<lparr>image_id = ''crimson-halo'', image_label = ''Crimson Halo'',
       image_description = ''Laser halo bow archer'', image_file = ''/images/crimson-halo.svg''\<rparr>]"

text \<open>The labels of the source contain non-ASCII separators; they are written in ASCII.\<close>

definition difficulties :: "DifficultyOption list" where
  "difficulties =
     [\<lparr>difficulty_id = ''easy'', difficulty_label = ''Easy 3 x 3'', difficulty_size = 3\<rparr>,
      \<lparr>difficulty_id = ''standard'', difficulty_label = ''Standard 4 x 4'', difficulty_size = 4\<rparr>,
      \<lparr>difficulty_id = ''expert'', difficulty_label = ''Expert 5 x 5'', difficulty_size = 5\<rparr>]"

section \<open>Board functions\<close>

definition createSolvedBoard :: "int \<Rightarrow> int list" where
  "createSolvedBoard sz = map int [0..<nat (sz * sz)]"

text \<open>
  The two nested \<open>for\<close> statements of \<open>countInversions\<close>, with their counters \<open>i\<close> and
  \<open>j\<close> and the accumulator \<open>inversions\<close>.
\<close>

function countInversions_inner :: "int list \<Rightarrow> int \<Rightarrow> nat \<Rightarrow> nat \<Rightarrow> int \<Rightarrow> int" where
  "countInversions_inner tiles blankValue i j inversions =
     (if j < length tiles then
        (let current = tiles ! i; next_tile = tiles ! j in
         if current = blankValue \<or> next_tile = blankValue
         then countInversions_inner tiles blankValue i (j + 1) inversions
         else if current > next_tile
         then countInversions_inner tiles blankValue i (j + 1) (inversions + 1)
         else countInversions_inner tiles blankValue i (j + 1) inversions)
      else inversions)"
  by pat_completeness auto
termination
  by (relation "measure (\<lambda>(tiles, blankValue, i, j, inversions). length tiles - j)") auto

function countInversions_outer :: "int list \<Rightarrow> int \<Rightarrow> nat \<Rightarrow> int \<Rightarrow> int" where
  "countInversions_outer tiles blankValue i inversions =
     (if i < length tiles
      then countInversions_outer tiles blankValue (i + 1)
             (countInversions_inner tiles blankValue i (i + 1) inversions)
      else inversions)"
  by pat_completeness auto
termination
  by (relation "measure (\<lambda>(tiles, blankValue, i, inversions). length tiles - i)") auto

declare countInversions_inner.simps [simp del] countInversions_outer.simps [simp del]

definition countInversions :: "int list \<Rightarrow> int \<Rightarrow> int" where
  "countInversions tiles blankValue = countInversions_outer tiles blankValue 0 0"

definition isSolvable :: "int list \<Rightarrow> int \<Rightarrow> bool" where
  "isSolvable tiles sz =
     (let blankValue = int (length tiles) - 1;
          inversions = countInversions tiles blankValue;
          blankIndex = indexOf tiles blankValue;
          blankRowFromBottom = sz - blankIndex div sz
      in if js_rem sz 2 = 1 then js_rem inversions 2 = 0
         else if js_rem blankRowFromBottom 2 = 0 then js_rem inversions 2 = 1
         else js_rem inversions 2 = 0)"

text \<open>
  The test \<open>candidate.every((value, idx) => value === solved[idx])\<close> of the
  rejection loop.
\<close>

definition every_matches :: "int list \<Rightarrow> int list \<Rightarrow> bool" where
  "every_matches candidate solved =
     list_all (\<lambda>(v, idx). Some v = js_at solved (int idx))
       (zip candidate [0..<length candidate])"

text \<open>
  \<open>shuffleBoard\<close> draws its candidates from \<open>[...solved].sort(() => Math.random() - 0.5)\<close>.
  What \<open>sort\<close> returns under a random comparator is left to the engine, so the model
  takes the sequence of arrays it returns as a parameter: \<open>rnd k\<close> is the candidate of
  the \<open>k\<close>-th round. \<open>sort\<close> only rearranges its input; the theorems state this as the
  hypothesis \<open>sort_oracle\<close>. The \<open>do ... while\<close> loop has no bound: it is a partial
  function, whose value \<open>None\<close> means that the loop never ends.
\<close>

definition sort_oracle :: "(nat \<Rightarrow> int list) \<Rightarrow> int \<Rightarrow> bool" where
  "sort_oracle rnd sz = (\<forall>k. sort (rnd k) = createSolvedBoard sz)"

definition rejected :: "int list \<Rightarrow> int \<Rightarrow> int list \<Rightarrow> int \<Rightarrow> bool" where
  "rejected solved blankValue candidate sz =
     (\<not> isSolvable candidate sz \<or> every_matches candidate solved
      \<or> js_at candidate 0 = Some blankValue)"

partial_function (option) shuffleBoard_loop ::
    "int list \<Rightarrow> int \<Rightarrow> int \<Rightarrow> (nat \<Rightarrow> int list) \<Rightarrow> nat \<Rightarrow> int list option" where
  "shuffleBoard_loop solved blankValue sz rnd k =
     (let candidate = rnd k in
      if rejected solved blankValue candidate sz
      then shuffleBoard_loop solved blankValue sz rnd (k + 1)
      else Some candidate)"

declare shuffleBoard_loop.simps [code]

definition shuffleBoard :: "int \<Rightarrow> (nat \<Rightarrow> int list) \<Rightarrow> int list option" where
  "shuffleBoard sz rnd =
     (let solved = createSolvedBoard sz;
          blankValue = int (length solved) - 1
      in shuffleBoard_loop solved blankValue sz rnd 0)"

definition isAdjacent :: "int \<Rightarrow> int \<Rightarrow> int \<Rightarrow> bool" where
  "isAdjacent indexA indexB sz =
     (let rowA = indexA div sz;
          colA = js_rem indexA sz;
          rowB = indexB div sz;
          colB = js_rem indexB sz;
          rowMatch = (rowA = rowB \<and> \<bar>colA - colB\<bar> = 1);
          colMatch = (colA = colB \<and> \<bar>rowA - rowB\<bar> = 1)
      in rowMatch \<or> colMatch)"

definition isSolved :: "cell list \<Rightarrow> bool" where
  "isSolved tiles =
     list_all (\<lambda>(v, index). v = Some (int index)) (zip tiles [0..<length tiles])"

text \<open>
  \<open>randomFrom\<close>. \<open>get_id\<close> reads the field \<open>id\<close> of an entry; \<open>excludeId\<close> is \<open>None\<close> when the
  argument is absent, and an empty string is falsy like \<open>undefined\<close>. \<open>r\<close> is the result
  of \<open>Math.random ()\<close>, a real number in \<open>[0, 1)\<close>. The result \<open>Inr None\<close> is \<open>undefined\<close>,
  what indexing the filtered array out of its range gives.
\<close>

definition randomFrom ::
    "('a \<Rightarrow> string) \<Rightarrow> 'a list \<Rightarrow> string option \<Rightarrow> real \<Rightarrow> js_error + 'a option" where
  "randomFrom get_id items excludeId r =
     (if length items = 0 then Inl EmptyArrayError
      else
        (let filtered =
               (case excludeId of
                  None \<Rightarrow> items
                | Some x \<Rightarrow>
                    if x \<noteq> [] \<and> length items > 1
                    then filter (\<lambda>entry. get_id entry \<noteq> x) items
                    else items)
         in Inr (js_at filtered \<lfloor>r * real (length filtered)\<rfloor>)))"

section \<open>The component App: its state and handlers\<close>

text \<open>
  The state is the six \<open>useState\<close> cells of \<open>App\<close>, and \<open>stored\<close>: the array last
  written under \<open>SCORE_KEY\<close> by \<open>storeRankings\<close> in this session (\<open>None\<close> before the
  first write). The handlers run in a browser: \<open>window\<close> is defined and \<open>setItem\<close>
  succeeds. Each handler runs to its end before the next event and each state updater
  runs once, so a handler is a function from the state at its call to the state after
  it.
\<close>

record app_state =
  difficultyId :: string
  currentImage :: DemonImage
  tiles :: "cell list"
  moveCount :: int
  status :: PuzzleStatus
  rankings :: "ScoreEntry list"
  stored :: "ScoreEntry list option"

definition activeDifficulty :: "app_state \<Rightarrow> DifficultyOption" where
  "activeDifficulty s =
     (case find (\<lambda>entry. difficulty_id entry = difficultyId s) difficulties of
        Some d \<Rightarrow> d
      | None \<Rightarrow> hd difficulties)"

definition tileCount :: "app_state \<Rightarrow> int" where
  "tileCount s = difficulty_size (activeDifficulty s) * difficulty_size (activeDifficulty s)"

definition blankValue :: "app_state \<Rightarrow> int" where
  "blankValue s = tileCount s - 1"

definition storeRankings :: "ScoreEntry list \<Rightarrow> app_state \<Rightarrow> app_state" where
  "storeRankings entries s = s\<lparr>stored := Some entries\<rparr>"

text \<open>
  The updater that \<open>persistRanking\<close> passes to \<open>setRankings\<close> (\<open>recordResult\<close> in the
  specification): \<open>[...previous, entry].sort((a, b) => a.moves - b.moves).slice(0, 8)\<close>.
  \<open>Array.prototype.sort\<close> is stable and this comparator is a consistent order on
  integers, so its result is the stable sort by \<open>moves\<close>, which \<open>sort_key\<close> computes.
\<close>

definition recordResult :: "ScoreEntry list \<Rightarrow> ScoreEntry \<Rightarrow> ScoreEntry list" where
  "recordResult previous entry = take 8 (sort_key moves (previous @ [entry]))"

text \<open>
  \<open>createId ()\<close> and \<open>Date.now ()\<close> read the clock and the random generator; their
  results are the parameters \<open>newId\<close> and \<open>now\<close>.
\<close>

definition persistRanking_entry :: "string \<Rightarrow> int \<Rightarrow> int \<Rightarrow> app_state \<Rightarrow> ScoreEntry" where
  "persistRanking_entry newId now mv s =
     \<lparr>entry_id = newId,
      entry_imageId = image_id (currentImage s),
      entry_imageLabel = image_label (currentImage s),
      entry_difficultyId = difficulty_id (activeDifficulty s),
      entry_difficultyLabel = difficulty_label (activeDifficulty s),
      entry_size = difficulty_size (activeDifficulty s),
      moves = mv,
      finishedAt = now\<rparr>"

definition persistRanking :: "string \<Rightarrow> int \<Rightarrow> int \<Rightarrow> app_state \<Rightarrow> app_state" where
  "persistRanking newId now mv s =
     (let entry = persistRanking_entry newId now mv s;
          updated = recordResult (rankings s) entry
      in storeRankings updated (s\<lparr>rankings := updated\<rparr>))"

text \<open>
  The destructuring swap of \<open>attemptMove\<close>: both reads happen before both writes.
\<close>

definition swap_cells :: "cell list \<Rightarrow> int \<Rightarrow> int \<Rightarrow> cell list" where
  "swap_cells nextTiles tileIndex emptyIndex =
     (let a = cell_at nextTiles emptyIndex;
          b = cell_at nextTiles tileIndex
      in js_set (js_set nextTiles tileIndex a) emptyIndex b)"

definition attemptMove :: "string \<Rightarrow> int \<Rightarrow> app_state \<Rightarrow> int \<Rightarrow> app_state" where
  "attemptMove newId now s tileIndex =
     (if status s \<noteq> Playing then s
      else
        (let emptyIndex = indexOf (tiles s) (Some (blankValue s)) in
         if \<not> isAdjacent tileIndex emptyIndex (difficulty_size (activeDifficulty s)) then s
         else
           (let nextTiles = swap_cells (tiles s) tileIndex emptyIndex;
                solved = isSolved nextTiles;
                updated = moveCount s + 1;
                s1 = s\<lparr>tiles := nextTiles, moveCount := updated\<rparr>;
                s2 = (if solved then persistRanking newId now updated s1 else s1)
            in if solved then s2\<lparr>status := Solved\<rparr> else s2)))"

definition handleTileClick :: "string \<Rightarrow> int \<Rightarrow> app_state \<Rightarrow> int \<Rightarrow> app_state" where
  "handleTileClick newId now s index = attemptMove newId now s index"

record options =
  randomImage :: "bool option"
  targetDifficultyId :: "string option"

text \<open>
  \<open>startPuzzle\<close>. An absent \<open>options\<close> object is the record with both fields \<open>None\<close>.
  The result is \<open>None\<close> when the loop of \<open>shuffleBoard\<close> never ends, \<open>Some (Inl e)\<close>
  when an exception leaves the handler, and \<open>Some (Inr s')\<close> with the new state
  otherwise. Were \<open>randomFrom\<close> to return \<open>undefined\<close>, the render that follows
  would read \<open>currentImage.label\<close> and throw a \<open>TypeError\<close>. \<open>focusBoard\<close> only moves
  the keyboard focus and is left out.
\<close>

definition startPuzzle ::
    "options \<Rightarrow> real \<Rightarrow> (nat \<Rightarrow> int list) \<Rightarrow> app_state \<Rightarrow> (js_error + app_state) option" where
  "startPuzzle opts r rnd s =
     (let targetDifficulty =
            (case find (\<lambda>entry. Some (difficulty_id entry) = targetDifficultyId opts) difficulties of
               Some d \<Rightarrow> d
             | None \<Rightarrow> activeDifficulty s);
          nextImage =
            (if randomImage opts = Some True
             then randomFrom image_id demonImages (Some (image_id (currentImage s))) r
             else Inr (Some (currentImage s)))
      in case nextImage of
           Inl e \<Rightarrow> Some (Inl e)
         | Inr picked \<Rightarrow>
             (case shuffleBoard (difficulty_size targetDifficulty) rnd of
                None \<Rightarrow> None
              | Some board \<Rightarrow>
                  (case picked of
                     None \<Rightarrow> Some (Inl TypeError)
                   | Some img \<Rightarrow>
                       Some (Inr (s\<lparr>difficultyId := difficulty_id targetDifficulty,
                                      currentImage := img,
                                      tiles := map Some board,
                                      moveCount := 0,
                                      status := Playing\<rparr>)))))"

text \<open>
  \<open>handleKeyDown\<close> with the key of the event. \<open>target\<close> starts at \<open>-1\<close> and the
  \<open>switch\<close> sets it for a move key; any other key but the two restart keys returns
  at once, which leaves the state as a \<open>target\<close> of \<open>-1\<close> does. The restart keys call
  \<open>startPuzzle ()\<close>, whose random inputs are the parameters \<open>r\<close> and \<open>rnd\<close>.
\<close>

definition handleKeyDown ::
    "string \<Rightarrow> int \<Rightarrow> real \<Rightarrow> (nat \<Rightarrow> int list) \<Rightarrow> app_state \<Rightarrow> string
       \<Rightarrow> (js_error + app_state) option" where
  "handleKeyDown newId now r rnd s key =
     (if status s \<noteq> Playing then Some (Inr s)
      else
        (let emptyIndex = indexOf (tiles s) (Some (blankValue s));
             sz = difficulty_size (activeDifficulty s);
             row = emptyIndex div sz;
             col = js_rem emptyIndex sz;
             target =
               (if key \<in> {''ArrowUp'', ''w'', ''W''}
                then (if row < sz - 1 then emptyIndex + sz else -1)
                else if key \<in> {''ArrowDown'', ''s'', ''S''}
                then (if row > 0 then emptyIndex - sz else -1)
                else if key \<in> {''ArrowLeft'', ''a'', ''A''}
                then (if col < sz - 1 then emptyIndex + 1 else -1)
                else if key \<in> {''ArrowRight'', ''d'', ''D''}
                then (if col > 0 then emptyIndex - 1 else -1)
                else -1)
         in if key \<in> {'' '', ''Enter''}
            then startPuzzle \<lparr>randomImage = None, targetDifficultyId = None\<rparr> r rnd s
            else if target \<ge> 0 then Some (Inr (attemptMove newId now s target))
            else Some (Inr s)))"

section \<open>Reading the stored rankings\<close>

text \<open>
  \<open>loadRankings\<close> reads the browser: \<open>window\<close> may be undefined; otherwise
  \<open>localStorage.getItem\<close> throws, or returns \<open>null\<close> (\<open>None\<close>) or a string. \<open>JSON.parse\<close>
  is the platform's and is a parameter: on a text it throws or returns a JSON value.
  The cast \<open>as ScoreEntry[]\<close> checks nothing, so the result is a list of JSON values.
\<close>

datatype json =
  JNull | JBool bool | JNum real | JStr string | JArr "json list" | JObj "(string \<times> json) list"




section \<open>Boards and example states\<close>

text \<open>
  A board of grid size \<open>sz\<close> is a permutation of \<open>0..sz * sz - 1\<close>: sorting it gives
  the solved board. In the state every cell of a board holds a number.
\<close>

definition is_permutation :: "int list \<Rightarrow> int \<Rightarrow> bool" where
  "is_permutation board sz = (sort board = createSolvedBoard sz)"

definition is_board :: "cell list \<Rightarrow> int \<Rightarrow> bool" where
  "is_board cells sz = (None \<notin> set cells \<and> is_permutation (map the cells) sz)"

text \<open>A state of a session on the 3 x 3 grid, for the concrete runs below.\<close>

definition session_state :: "int list \<Rightarrow> PuzzleStatus \<Rightarrow> int \<Rightarrow> app_state" where
  "session_state board st mc =
     \<lparr>difficultyId = ''easy'', currentImage = hd demonImages, tiles = map Some board,
      moveCount = mc, status = st, rankings = [], stored = None\<rparr>"

definition one_move_left :: app_state where
  "one_move_left = session_state [0, 1, 2, 3, 4, 5, 6, 8, 7] Playing 4"

text \<open>A playing state of the 3 x 3 grid with the empty cell at index 0.\<close>

definition blank_first :: app_state where
  "blank_first = session_state [8, 0, 1, 2, 3, 4, 5, 6, 7] Playing 3"

text \<open>
  A run of the random sort for the 3 x 3 grid: the first candidate is the solved board,
  every later one has the empty cell at index 6.
\<close>

definition example_rnd :: "nat \<Rightarrow> int list" where
  "example_rnd k = (if k = 0 then [0, 1, 2, 3, 4, 5, 6, 7, 8] else [0, 1, 2, 3, 4, 5, 8, 6, 7])"

text \<open>Runs of the random sort for the 4 x 4 and the 5 x 5 grid, with one candidate each.\<close>

definition example_rnd4 :: "nat \<Rightarrow> int list" where
  "example_rnd4 k = [0, 1, 2, 3, 4, 5, 6, 7, 8, 9, 10, 11, 12, 13, 15, 14]"

definition example_rnd5 :: "nat \<Rightarrow> int list" where
  "example_rnd5 k =
     [0, 1, 2, 3, 4, 5, 6, 7, 8, 9, 10, 11, 12, 13, 14, 15, 16, 17, 18, 19, 20, 21, 22, 24, 23]"

text \<open>
  The state right after a start on the 3 x 3 grid with the board that \<open>example_rnd\<close>
  yields, and a sequence of calls of \<open>attemptMove\<close>, each with its index and the
  identifier and time it would use for a ranking entry.
\<close>

definition fresh_board :: app_state where
  "fresh_board = session_state [0, 1, 2, 3, 4, 5, 8, 6, 7] Playing 0"

definition attemptMoves :: "app_state \<Rightarrow> (int \<times> string \<times> int) list \<Rightarrow> app_state" where
  "attemptMoves s ms = foldl (\<lambda>s' (i, newId, now). attemptMove newId now s' i) s ms"

section \<open>The parity rule as the specification words it\<close>

text \<open>
  Written from section 4.1 of the specification, not from the code: the inversion count
  over all pairs \<open>i < j\<close> of non-empty tiles with \<open>tiles[i] > tiles[j]\<close>, the index of the
  blank (the value \<open>N * N - 1\<close>), \<open>blankRowFromBottom = size - row (blankIndex)\<close>, and the
  rule on the parities.
\<close>

definition spec_inversions :: "int list \<Rightarrow> int \<Rightarrow> nat" where
  "spec_inversions board blank =
     length [(i, j) \<leftarrow> List.product [0..<length board] [0..<length board].
               i < j \<and> board ! i \<noteq> blank \<and> board ! j \<noteq> blank \<and> board ! i > board ! j]"

definition spec_blankIndex :: "int list \<Rightarrow> int \<Rightarrow> nat" where
  "spec_blankIndex board blank = length (takeWhile (\<lambda>v. v \<noteq> blank) board)"

definition spec_solvable :: "int list \<Rightarrow> int \<Rightarrow> bool" where
  "spec_solvable board sz =
     (let blank = sz * sz - 1;
          inversions = spec_inversions board blank;
          blankRowFromBottom = sz - int (spec_blankIndex board blank) div sz
      in if odd sz then even inversions
         else (even blankRowFromBottom \<longrightarrow> odd inversions)
            \<and> (odd blankRowFromBottom \<longrightarrow> even inversions))"

text \<open>The test of the inner loop of \<open>countInversions\<close> on the pair of indices.\<close>

definition inverted :: "int list \<Rightarrow> int \<Rightarrow> nat \<Rightarrow> nat \<Rightarrow> bool" where
  "inverted board blank i j =
     (board ! i \<noteq> blank \<and> board ! j \<noteq> blank \<and> board ! i > board ! j)"

section \<open>Auxiliary definitions for the ranking list\<close>

text \<open>
  Where a stable sort puts an element that was appended at the end of a sorted list:
  behind every element whose key is at most its own.
\<close>

fun insert_after :: "('a \<Rightarrow> 'k::linorder) \<Rightarrow> 'a \<Rightarrow> 'a list \<Rightarrow> 'a list" where
  "insert_after f e [] = [e]"
| "insert_after f e (y # ys) = (if f y \<le> f e then y # insert_after f e ys else e # y # ys)"

text \<open>Nine results with their move counts, in the order they are recorded.\<close>

definition score :: "string \<Rightarrow> int \<Rightarrow> ScoreEntry" where
  "score name mv =
     \<lparr>entry_id = name, entry_imageId = ''starlit-reaper'', entry_imageLabel = ''Starlit Reaper'',
      entry_difficultyId = ''easy'', entry_difficultyLabel = ''Easy 3 x 3'', entry_size = 3,
      moves = mv, finishedAt = 0\<rparr>"

definition nine_results :: "ScoreEntry list" where
  "nine_results =
     [score ''a'' 30, score ''b'' 12, score ''c'' 45, score ''d'' 12, score ''e'' 60,
      score ''f'' 7, score ''g'' 45, score ''h'' 90, score ''i'' 20]"

section \<open>Stored texts used in the examples\<close>


section \<open>Basic facts\<close>

subsection \<open>Arrays and permutations\<close>

lemma indexOf_bounds: "-1 \<le> indexOf xs v \<and> indexOf xs v < int (length xs)"
  by (induction xs) (auto simp: Let_def)

lemma indexOf_absent: "v \<notin> set xs \<Longrightarrow> indexOf xs v = -1"
  by (induction xs) (auto simp: Let_def)

lemma indexOf_present: "v \<in> set xs \<Longrightarrow> 0 \<le> indexOf xs v \<and> xs ! nat (indexOf xs v) = v"
proof (induction xs)
  case Nil
  then show ?case by simp
next
  case (Cons x xs)
  show ?case
  proof (cases "x = v")
    case True
    then show ?thesis by simp
  next
    case False
    with Cons.prems have "v \<in> set xs" by simp
    with Cons.IH have ih: "0 \<le> indexOf xs v" "xs ! nat (indexOf xs v) = v" by simp_all
    from False ih show ?thesis by (simp add: Let_def nat_add_distrib)
  qed
qed

lemma indexOf_nth: "distinct xs \<Longrightarrow> i < length xs \<Longrightarrow> indexOf xs (xs ! i) = int i"
proof (induction xs arbitrary: i)
  case Nil
  then show ?case by simp
next
  case (Cons x xs)
  show ?case
  proof (cases i)
    case 0
    then show ?thesis by simp
  next
    case (Suc j)
    with Cons.prems have j: "j < length xs" "distinct xs" "xs ! j \<noteq> x" by auto
    with Cons.IH have "indexOf xs (xs ! j) = int j" by simp
    with Suc j show ?thesis by (auto simp: Let_def)
  qed
qed

lemma length_createSolvedBoard: "length (createSolvedBoard sz) = nat (sz * sz)"
  by (simp add: createSolvedBoard_def)

lemma distinct_createSolvedBoard: "distinct (createSolvedBoard sz)"
  by (simp add: createSolvedBoard_def distinct_map)

lemma set_createSolvedBoard: "set (createSolvedBoard sz) = {0..<sz * sz}"
proof -
  have "int ` {0..<nat (sz * sz)} = {0..<sz * sz}"
    by (auto simp: image_iff) (metis nat_0_le nat_less_iff zero_le_square atLeastLessThan_iff zero_le)
  then show ?thesis by (simp add: createSolvedBoard_def)
qed

lemma is_permutation_mset:
  "is_permutation board sz \<longleftrightarrow> mset board = mset (createSolvedBoard sz)"
proof
  assume "is_permutation board sz"
  then have "mset (sort board) = mset (createSolvedBoard sz)" by (simp add: is_permutation_def)
  then show "mset board = mset (createSolvedBoard sz)" by simp
next
  assume m: "mset board = mset (createSolvedBoard sz)"
  have "sorted (createSolvedBoard sz)"
    by (simp add: createSolvedBoard_def sorted_map)
  with m have "sort board = createSolvedBoard sz"
    by (metis properties_for_sort)
  then show "is_permutation board sz" by (simp add: is_permutation_def)
qed

lemma is_permutation_facts:
  assumes "is_permutation board sz"
  shows "length board = nat (sz * sz)" and "distinct board" and "set board = {0..<sz * sz}"
proof -
  from assms have m: "mset board = mset (createSolvedBoard sz)" by (simp add: is_permutation_mset)
  from m show "length board = nat (sz * sz)"
    using length_createSolvedBoard mset_eq_length by metis
  from m show "distinct board"
    using distinct_createSolvedBoard mset_eq_imp_distinct_iff by blast
  from m show "set board = {0..<sz * sz}"
    using set_createSolvedBoard mset_eq_setD by metis
qed

lemma is_board_map_Some: "is_board (map Some board) sz \<longleftrightarrow> is_permutation board sz"
  by (auto simp: is_board_def comp_def)

lemma is_board_obtain:
  assumes "is_board cells sz"
  obtains board where "cells = map Some board" and "is_permutation board sz"
proof
  from assms have "None \<notin> set cells" by (simp add: is_board_def)
  then show "cells = map Some (map the cells)"
    by (induction cells) auto
  from assms show "is_permutation (map the cells) sz" by (simp add: is_board_def)
qed

lemma cell_at_in_range:
  "0 \<le> i \<Longrightarrow> i < int (length cells) \<Longrightarrow> cell_at cells i = cells ! nat i"
  by (simp add: cell_at_def js_at_def)

lemma cell_at_out_of_range:
  "i < 0 \<or> int (length cells) \<le> i \<Longrightarrow> cell_at cells i = None"
  by (auto simp: cell_at_def js_at_def)

lemma swap_cells_in_range:
  assumes "0 \<le> i" "i < int (length cells)" "0 \<le> e" "e < int (length cells)"
  shows "swap_cells cells i e = cells[nat i := cells ! nat e, nat e := cells ! nat i]"
  using assms by (simp add: swap_cells_def Let_def js_set_def cell_at_in_range)

lemma swap_cells_changes:
  assumes "0 \<le> e" "e < int (length cells)" "i \<noteq> e" "cell_at cells i \<noteq> cell_at cells e"
  shows "swap_cells cells i e \<noteq> cells"
proof (cases "int (length cells) \<le> i")
  case True
  with assms have "length (swap_cells cells i e) \<noteq> length cells"
    by (simp add: swap_cells_def Let_def js_set_def)
  then show ?thesis by auto
next
  case False
  with assms have "swap_cells cells i e ! nat e = cell_at cells i"
    by (auto simp: swap_cells_def Let_def js_set_def)
  with assms show ?thesis by (auto simp: cell_at_in_range)
qed

lemma swap_cells_beyond:
  assumes "0 \<le> e" "e < int (length cells)" "int (length cells) \<le> i"
  shows "swap_cells cells i e =
           cells[nat e := None] @ replicate (nat i - length cells) None @ [cells ! nat e]"
proof -
  from assms obtain ne ni where n: "e = int ne" "i = int ni"
    by (metis nonneg_int_cases order.trans of_nat_0_le_iff)
  with assms have "ne < length cells" "length cells \<le> ni" by simp_all
  then show ?thesis
    by (simp add: n swap_cells_def Let_def js_set_def cell_at_def js_at_def list_update_append)
qed

lemma swap_cells_pointwise:
  assumes "0 \<le> e" "e < int (length cells)" "0 \<le> i" "i \<noteq> e"
  shows "cell_at (swap_cells cells i e) k =
           (if k = i then cell_at cells e else if k = e then cell_at cells i else cell_at cells k)"
proof (cases "0 \<le> k")
  case False
  then show ?thesis using assms by (auto simp: cell_at_def js_at_def)
next
  case True
  with assms obtain ne ni nk where n: "e = int ne" "i = int ni" "k = int nk"
    by (metis nonneg_int_cases)
  with assms have ne: "ne < length cells" "ni \<noteq> ne" by simp_all
  show ?thesis
  proof (cases "ni < length cells")
    case True
    with ne have sw: "swap_cells cells i e = cells[ni := cells ! ne, ne := cells ! ni]"
      by (simp add: n swap_cells_in_range)
    from True ne show ?thesis
      by (simp add: sw[unfolded n] n cell_at_def js_at_def nth_list_update)
  next
    case False
    with ne have sw: "swap_cells cells i e =
        cells[ne := None] @ replicate (ni - length cells) None @ [cells ! ne]"
      by (simp add: n swap_cells_beyond)
    consider "nk < length cells" | "length cells \<le> nk" "nk < ni" | "nk = ni" | "ni < nk"
      by linarith
    then show ?thesis
    proof cases
      case 1
      with False ne show ?thesis
        by (simp add: sw[unfolded n] n cell_at_def js_at_def nth_append nth_list_update)
    next
      case 2
      with False ne have "nk - length cells < ni - length cells" "nk \<noteq> ne" by auto
      with 2 False ne show ?thesis
        by (simp add: sw[unfolded n] n cell_at_def js_at_def nth_append)
    next
      case 3
      with False ne show ?thesis
        by (simp add: sw[unfolded n] n cell_at_def js_at_def nth_append)
    next
      case 4
      with False ne show ?thesis
        by (simp add: sw[unfolded n] n cell_at_def js_at_def)
    qed
  qed
qed

subsection \<open>Adjacency, the catalogs and \<open>attemptMove\<close>\<close>

lemma js_rem_nonneg: "0 \<le> a \<Longrightarrow> 0 < b \<Longrightarrow> js_rem a b = a mod b"
  by (cases "a = 0") (simp_all add: js_rem_def)

lemma isAdjacent_sym: "isAdjacent a b sz = isAdjacent b a sz"
  by (auto simp: isAdjacent_def Let_def abs_minus_commute)

lemma isAdjacent_irrefl: "\<not> isAdjacent a a sz"
  by (simp add: isAdjacent_def Let_def)

lemma isAdjacent_grid:
  assumes "0 \<le> a" "0 \<le> b" "0 < sz"
  shows "isAdjacent a b sz \<longleftrightarrow>
           (a div sz = b div sz \<and> \<bar>a mod sz - b mod sz\<bar> = 1)
         \<or> (a mod sz = b mod sz \<and> \<bar>a div sz - b div sz\<bar> = 1)"
  using assms by (simp add: isAdjacent_def Let_def js_rem_nonneg)

lemma activeDifficulty_in: "activeDifficulty s \<in> set difficulties"
  by (auto simp: activeDifficulty_def difficulties_def split: option.splits if_splits)

lemma difficulty_size_range: "d \<in> set difficulties \<Longrightarrow> difficulty_size d \<in> {3, 4, 5}"
  by (auto simp: difficulties_def)

lemma active_size_pos: "0 < difficulty_size (activeDifficulty s)"
  using difficulty_size_range [OF activeDifficulty_in, of s] by auto

lemma find_difficulty:
  "d \<in> set difficulties \<Longrightarrow> find (\<lambda>entry. difficulty_id entry = difficulty_id d) difficulties = Some d"
  by (auto simp: difficulties_def)

lemma activeDifficulty_update:
  "d \<in> set difficulties \<Longrightarrow> activeDifficulty (s\<lparr>difficultyId := difficulty_id d\<rparr>) = d"
  by (simp add: activeDifficulty_def find_difficulty)

lemma attemptMove_difficultyId: "difficultyId (attemptMove newId now s i) = difficultyId s"
  by (simp add: attemptMove_def Let_def persistRanking_def storeRankings_def)

lemma attemptMove_activeDifficulty:
  "activeDifficulty (attemptMove newId now s i) = activeDifficulty s"
  by (simp add: activeDifficulty_def attemptMove_difficultyId)

lemma attemptMove_tiles:
  "status s = Playing \<Longrightarrow>
   tiles (attemptMove newId now s i) =
     (let e = indexOf (tiles s) (Some (blankValue s)) in
      if isAdjacent i e (difficulty_size (activeDifficulty s))
      then swap_cells (tiles s) i e else tiles s)"
  by (simp add: attemptMove_def Let_def persistRanking_def storeRankings_def)

lemma attemptMove_illegal:
  "\<not> isAdjacent i (indexOf (tiles s) (Some (blankValue s))) (difficulty_size (activeDifficulty s))
   \<Longrightarrow> attemptMove newId now s i = s"
  by (simp add: attemptMove_def Let_def)

lemma blank_in_board:
  assumes "is_board cells sz" "0 < sz"
  shows "0 \<le> indexOf cells (Some (sz * sz - 1))"
    and "indexOf cells (Some (sz * sz - 1)) < sz * sz"
    and "cells ! nat (indexOf cells (Some (sz * sz - 1))) = Some (sz * sz - 1)"
    and "int (length cells) = sz * sz"
    and "distinct cells"
proof -
  from assms(1) obtain board where b: "cells = map Some board" "is_permutation board sz"
    by (rule is_board_obtain)
  note f = is_permutation_facts [OF b(2)]
  from assms(2) have "0 < sz * sz" by simp
  then have "sz * sz - 1 \<in> set board" using f(3) by simp
  then have m: "Some (sz * sz - 1) \<in> set cells" by (simp add: b(1))
  from indexOf_present [OF m]
  show "0 \<le> indexOf cells (Some (sz * sz - 1))"
    and "cells ! nat (indexOf cells (Some (sz * sz - 1))) = Some (sz * sz - 1)" by simp_all
  show len: "int (length cells) = sz * sz" using f(1) by (simp add: b(1))
  from indexOf_bounds [of cells "Some (sz * sz - 1)"] len
  show "indexOf cells (Some (sz * sz - 1)) < sz * sz" by simp
  show "distinct cells" using f(2) by (simp add: b(1) distinct_map)
qed

lemma is_board_swap:
  assumes "is_board cells sz" "i < length cells" "e < length cells"
  shows "is_board (cells[i := cells ! e, e := cells ! i]) sz"
proof -
  from assms(1) have none: "None \<notin> set cells" and p: "is_permutation (map the cells) sz"
    by (simp_all add: is_board_def)
  let ?c = "cells[i := cells ! e, e := cells ! i]"
  have m: "mset ?c = mset cells" using assms(2,3) by (simp add: mset_swap)
  then have "set ?c = set cells" by (rule mset_eq_setD)
  with none have n': "None \<notin> set ?c" by simp
  from m have "mset (map the ?c) = mset (map the cells)" by (metis mset_map)
  with p have "is_permutation (map the ?c) sz" by (simp add: is_permutation_mset)
  with n' show ?thesis by (simp add: is_board_def)
qed

lemma blankValue_active: "blankValue s = difficulty_size (activeDifficulty s) * difficulty_size (activeDifficulty s) - 1"
  by (simp add: blankValue_def tileCount_def)

lemma legal_swap_changes:
  assumes "is_board cells sz" "0 < sz" "isAdjacent i (indexOf cells (Some (sz * sz - 1))) sz"
  shows "swap_cells cells i (indexOf cells (Some (sz * sz - 1))) \<noteq> cells"
proof -
  let ?e = "indexOf cells (Some (sz * sz - 1))"
  note b = blank_in_board [OF assms(1,2)]
  from assms(3) have ne: "i \<noteq> ?e" using isAdjacent_irrefl by auto
  have ce: "cell_at cells ?e = Some (sz * sz - 1)" using b by (simp add: cell_at_in_range)
  have "cell_at cells i \<noteq> cell_at cells ?e"
  proof (cases "0 \<le> i \<and> i < int (length cells)")
    case False
    then have "cell_at cells i = None" by (auto simp: cell_at_out_of_range)
    with ce show ?thesis by simp
  next
    case True
    then have "nat i < length cells" "nat ?e < length cells" "nat i \<noteq> nat ?e"
      using b ne by auto
    with b(5) have "cells ! nat i \<noteq> cells ! nat ?e" by (simp add: nth_eq_iff_index_eq)
    with True b show ?thesis by (simp add: cell_at_in_range)
  qed
  with b ne show ?thesis by (intro swap_cells_changes) simp_all
qed


subsection \<open>The rejection loop of \<open>shuffleBoard\<close>\<close>



lemma list_all_zip_upt:
  "list_all P (zip xs [0..<length xs]) \<longleftrightarrow> (\<forall>i<length xs. P (xs ! i, i))"
  by (simp add: list_all_length)

lemma every_matches_iff:
  "every_matches candidate solved \<longleftrightarrow>
     (\<forall>i<length candidate. js_at solved (int i) = Some (candidate ! i))"
  by (auto simp: every_matches_def list_all_zip_upt)

lemma every_matches_refl: "every_matches xs xs"
  by (simp add: every_matches_iff js_at_def)

lemma isSolved_iff: "isSolved cells \<longleftrightarrow> (\<forall>i<length cells. cells ! i = Some (int i))"
  by (simp add: isSolved_def list_all_zip_upt)

lemma isSolved_map_Some:
  "isSolved (map Some board) \<longleftrightarrow> board = map int [0..<length board]"
proof
  assume "isSolved (map Some board)"
  then have "\<forall>i<length board. board ! i = int i" by (simp add: isSolved_iff)
  then show "board = map int [0..<length board]" by (intro nth_equalityI) simp_all
next
  assume "board = map int [0..<length board]"
  then have "\<forall>i<length board. board ! i = int i" by (metis add_0 length_map nth_map_upt length_upt diff_zero)
  then show "isSolved (map Some board)" by (simp add: isSolved_iff)
qed

lemma isSolved_board:
  "is_permutation board sz \<Longrightarrow> isSolved (map Some board) \<longleftrightarrow> board = createSolvedBoard sz"
  using is_permutation_facts(1) [of board sz]
  by (auto simp: isSolved_map_Some createSolvedBoard_def)

lemma indexOf_zero: "indexOf xs v = 0 \<longleftrightarrow> js_at xs 0 = Some v"
proof (cases xs)
  case Nil
  then show ?thesis by (simp add: js_at_def)
next
  case (Cons x ys)
  have "-1 \<le> indexOf ys v" using indexOf_bounds [of ys v] by simp
  with Cons show ?thesis by (auto simp: js_at_def Let_def)
qed

lemma shuffleBoard_loop_result:
  assumes "shuffleBoard_loop solved bv sz rnd k = Some y"
  shows "\<exists>j\<ge>k. y = rnd j \<and> \<not> rejected solved bv (rnd j) sz"
proof (rule shuffleBoard_loop.raw_induct
    [where P = "\<lambda>solved bv sz rnd k y. \<exists>j\<ge>k. y = rnd j \<and> \<not> rejected solved bv (rnd j) sz",
      OF _ assms])
  fix loop :: "int list \<Rightarrow> int \<Rightarrow> int \<Rightarrow> (nat \<Rightarrow> int list) \<Rightarrow> nat \<Rightarrow> int list option"
    and solved bv sz rnd k y
  assume IH: "\<And>solved bv sz rnd k y. loop solved bv sz rnd k = Some y \<Longrightarrow>
      \<exists>j\<ge>k. y = rnd j \<and> \<not> rejected solved bv (rnd j) sz"
    and body: "(let candidate = rnd k in
      if rejected solved bv candidate sz then loop solved bv sz rnd (k + 1) else Some candidate)
      = Some y"
  show "\<exists>j\<ge>k. y = rnd j \<and> \<not> rejected solved bv (rnd j) sz"
  proof (cases "rejected solved bv (rnd k) sz")
    case True
    with body have "loop solved bv sz rnd (k + 1) = Some y" by (simp add: Let_def)
    from IH [OF this] show ?thesis by (metis add_leD1)
  next
    case False
    with body have "y = rnd k" by (simp add: Let_def)
    with False show ?thesis by auto
  qed
qed

lemma shuffleBoard_loop_returns:
  "\<not> rejected solved bv (rnd (k + d)) sz \<Longrightarrow> \<exists>y. shuffleBoard_loop solved bv sz rnd k = Some y"
proof (induction d arbitrary: k)
  case 0
  then show ?case by (subst shuffleBoard_loop.simps) (simp add: Let_def)
next
  case (Suc d)
  then have "\<not> rejected solved bv (rnd (Suc k + d)) sz" by simp
  from Suc.IH [OF this] obtain y where "shuffleBoard_loop solved bv sz rnd (Suc k) = Some y" ..
  then show ?case by (subst shuffleBoard_loop.simps) (simp add: Let_def)
qed

lemma blank_of_solved: "int (length (createSolvedBoard sz)) - 1 = sz * sz - 1"
  by (simp add: createSolvedBoard_def)

lemma shuffleBoard_returns:
  assumes "\<not> rejected (createSolvedBoard sz) (sz * sz - 1) (rnd k) sz"
  shows "\<exists>board. shuffleBoard sz rnd = Some board"
  using shuffleBoard_loop_returns [of "createSolvedBoard sz" "sz * sz - 1" rnd 0 k sz] assms
  by (simp add: shuffleBoard_def Let_def blank_of_solved)

lemma shuffleBoard_accepts:
  assumes "shuffleBoard sz rnd = Some board"
  shows "\<exists>k. board = rnd k \<and> \<not> rejected (createSolvedBoard sz) (sz * sz - 1) board sz"
  using shuffleBoard_loop_result [of "createSolvedBoard sz" "sz * sz - 1" sz rnd 0 board] assms
  by (auto simp: shuffleBoard_def Let_def blank_of_solved)

lemma shuffleBoard_board:
  assumes "sort_oracle rnd sz" and "shuffleBoard sz rnd = Some board"
  shows "is_permutation board sz" and "isSolvable board sz" and "board \<noteq> createSolvedBoard sz"
    and "indexOf board (sz * sz - 1) \<noteq> 0"
proof -
  from shuffleBoard_accepts [OF assms(2)] obtain k where
    k: "board = rnd k" and acc: "\<not> rejected (createSolvedBoard sz) (sz * sz - 1) board sz"
    by blast
  from assms(1) k show "is_permutation board sz"
    by (simp add: sort_oracle_def is_permutation_def)
  from acc show "isSolvable board sz" by (simp add: rejected_def)
  from acc have "\<not> every_matches board (createSolvedBoard sz)" by (simp add: rejected_def)
  then show "board \<noteq> createSolvedBoard sz" using every_matches_refl by auto
  from acc have "js_at board 0 \<noteq> Some (sz * sz - 1)" by (simp add: rejected_def)
  then show "indexOf board (sz * sz - 1) \<noteq> 0" by (simp add: indexOf_zero)
qed

lemma sort_oracle_example_rnd: "sort_oracle example_rnd 3"
proof -
  have a: "sort [0, 1, 2, 3, 4, 5, 6, 7, 8 :: int] = createSolvedBoard 3"
    and b: "sort [0, 1, 2, 3, 4, 5, 8, 6, 7 :: int] = createSolvedBoard 3" by code_simp+
  have "sort (example_rnd k) = createSolvedBoard 3" for k
  proof (cases "k = 0")
    case True
    then have "example_rnd k = [0, 1, 2, 3, 4, 5, 6, 7, 8]" by (simp add: example_rnd_def)
    then show ?thesis by (simp only: a)
  next
    case False
    then have "example_rnd k = [0, 1, 2, 3, 4, 5, 8, 6, 7]" by (simp add: example_rnd_def)
    then show ?thesis by (simp only: b)
  qed
  then show ?thesis by (simp add: sort_oracle_def)
qed

lemma shuffleBoard_example_rnd: "shuffleBoard 3 example_rnd = Some [0, 1, 2, 3, 4, 5, 8, 6, 7]"
  by code_simp

lemma sort_oracle_example_rnd4: "sort_oracle example_rnd4 4"
proof -
  have "sort [0, 1, 2, 3, 4, 5, 6, 7, 8, 9, 10, 11, 12, 13, 15, 14 :: int] = createSolvedBoard 4"
    by code_simp
  then show ?thesis by (simp only: sort_oracle_def example_rnd4_def simp_thms)
qed

lemma sort_oracle_example_rnd5: "sort_oracle example_rnd5 5"
proof -
  have "sort [0, 1, 2, 3, 4, 5, 6, 7, 8, 9, 10, 11, 12, 13, 14, 15, 16, 17, 18, 19, 20, 21, 22,
      24, 23 :: int] = createSolvedBoard 5"
    by code_simp
  then show ?thesis by (simp only: sort_oracle_def example_rnd5_def simp_thms)
qed

subsection \<open>Moves keep a board a board\<close>

lemma attemptMove_status:
  "status s = Playing \<Longrightarrow>
   status (attemptMove newId now s i) =
     (if isAdjacent i (indexOf (tiles s) (Some (blankValue s))) (difficulty_size (activeDifficulty s))
         \<and> isSolved (tiles (attemptMove newId now s i))
      then Solved else Playing)"
  by (simp add: attemptMove_def Let_def persistRanking_def storeRankings_def)

lemma attemptMove_blankValue: "blankValue (attemptMove newId now s i) = blankValue s"
  by (simp add: blankValue_def tileCount_def attemptMove_activeDifficulty)

lemma attemptMove_keeps_board:
  assumes "is_board (tiles s) (difficulty_size (activeDifficulty s))"
    and "0 \<le> i" and "i < tileCount s"
  shows "is_board (tiles (attemptMove newId now s i)) (difficulty_size (activeDifficulty s))"
proof (cases "status s = Playing")
  case False
  with assms(1) show ?thesis by (simp add: attemptMove_def)
next
  case True
  define sz where "sz = difficulty_size (activeDifficulty s)"
  define e where "e = indexOf (tiles s) (Some (blankValue s))"
  have pos: "0 < sz" by (simp add: sz_def active_size_pos)
  have bv: "blankValue s = sz * sz - 1" by (simp add: sz_def blankValue_active)
  have brd: "is_board (tiles s) sz" using assms(1) by (simp add: sz_def)
  note b = blank_in_board [OF brd pos, folded bv, folded e_def]
  from assms(3) have i: "i < sz * sz" by (simp add: tileCount_def sz_def)
  have "is_board (swap_cells (tiles s) i e) sz"
  proof -
    from assms(2) i b have "swap_cells (tiles s) i e =
        (tiles s)[nat i := tiles s ! nat e, nat e := tiles s ! nat i]"
      by (simp add: swap_cells_in_range)
    moreover from assms(2) i b have "nat i < length (tiles s)" "nat e < length (tiles s)"
      by linarith+
    ultimately show ?thesis using is_board_swap [OF brd] by simp
  qed
  with True brd show ?thesis
    by (simp add: attemptMove_tiles Let_def e_def [symmetric] sz_def [symmetric])
qed


lemma handleKeyDown_target:
  fixes sz e :: int
  assumes "0 < sz" "0 \<le> e" "e < sz * sz"
  shows "(e div sz < sz - 1 \<longrightarrow> e + sz < sz * sz)"
    and "(0 < e div sz \<longrightarrow> 0 \<le> e - sz)"
    and "(e mod sz < sz - 1 \<longrightarrow> e + 1 < sz * sz)"
    and "(0 < e mod sz \<longrightarrow> 0 \<le> e - 1)"
proof -
  have d: "e = sz * (e div sz) + e mod sz" by simp
  have m: "0 \<le> e mod sz" "e mod sz < sz" using assms(1) by simp_all
  show "e div sz < sz - 1 \<longrightarrow> e + sz < sz * sz"
  proof
    assume "e div sz < sz - 1"
    then have "e div sz + 1 \<le> sz - 1" by simp
    then have "sz * (e div sz + 1) \<le> sz * (sz - 1)" using assms(1) by (simp add: mult_left_mono)
    then have "sz * (e div sz) + sz \<le> sz * sz - sz" by (simp add: algebra_simps)
    with d m show "e + sz < sz * sz" by linarith
  qed
  show "0 < e div sz \<longrightarrow> 0 \<le> e - sz"
  proof
    assume "0 < e div sz"
    then have "sz * 1 \<le> sz * (e div sz)" using assms(1) by (intro mult_left_mono) simp_all
    with d m show "0 \<le> e - sz" by linarith
  qed
  show "e mod sz < sz - 1 \<longrightarrow> e + 1 < sz * sz"
  proof
    assume a: "e mod sz < sz - 1"
    have "sz * (e div sz) < sz * sz" using d m assms(3) by linarith
    then have "e div sz < sz" using assms(1) by (simp add: mult_less_cancel_left_pos)
    then have "e div sz + 1 \<le> sz" by simp
    then have "sz * (e div sz + 1) \<le> sz * sz" using assms(1) by (simp add: mult_left_mono)
    then have "sz * (e div sz) + sz \<le> sz * sz" by (simp add: algebra_simps)
    with d a show "e + 1 < sz * sz" by linarith
  qed
  show "0 < e mod sz \<longrightarrow> 0 \<le> e - 1" using assms(2) by (cases "e = 0") auto
qed

lemma handleKeyDown_keeps_board:
  assumes "is_board (tiles s) (difficulty_size (activeDifficulty s))"
    and "key \<notin> {'' '', ''Enter''}"
  shows "\<exists>s'. handleKeyDown newId now r rnd s key = Some (Inr s')
           \<and> is_board (tiles s') (difficulty_size (activeDifficulty s))"
proof (cases "status s = Playing")
  case False
  with assms(1) show ?thesis by (simp add: handleKeyDown_def)
next
  case True
  define sz where "sz = difficulty_size (activeDifficulty s)"
  define e where "e = indexOf (tiles s) (Some (blankValue s))"
  define up where "up \<longleftrightarrow> key \<in> {''ArrowUp'', ''w'', ''W''}"
  define down where "down \<longleftrightarrow> key \<in> {''ArrowDown'', ''s'', ''S''}"
  define left where "left \<longleftrightarrow> key \<in> {''ArrowLeft'', ''a'', ''A''}"
  define right where "right \<longleftrightarrow> key \<in> {''ArrowRight'', ''d'', ''D''}"
  define target where "target =
      (if up then (if e div sz < sz - 1 then e + sz else -1)
       else if down then (if e div sz > 0 then e - sz else -1)
       else if left then (if js_rem e sz < sz - 1 then e + 1 else -1)
       else if right then (if js_rem e sz > 0 then e - 1 else -1)
       else -1)"
  have pos: "0 < sz" by (simp add: sz_def active_size_pos)
  have bv: "blankValue s = sz * sz - 1" by (simp add: sz_def blankValue_active)
  have brd: "is_board (tiles s) sz" using assms(1) by (simp add: sz_def)
  note b = blank_in_board [OF brd pos, folded bv, folded e_def]
  note t = handleKeyDown_target [OF pos b(1,2)]
  have jr: "js_rem e sz = e mod sz" using b(1) pos by (rule js_rem_nonneg)
  have rng: "target < sz * sz"
  proof -
    have "0 < sz * sz" using pos by simp
    then have m1: "(-1::int) < sz * sz" by simp
    have "e - sz < sz * sz" "e - 1 < sz * sz" using b(2) pos by simp_all
    with t m1 show ?thesis unfolding target_def jr by (simp only: split: if_split) blast
  qed
  have h: "handleKeyDown newId now r rnd s key =
      (if target \<ge> 0 then Some (Inr (attemptMove newId now s target)) else Some (Inr s))"
    unfolding handleKeyDown_def Let_def
      up_def [symmetric] down_def [symmetric] left_def [symmetric] right_def [symmetric]
      e_def [symmetric] sz_def [symmetric] target_def [symmetric]
    using True assms(2) by (simp only: simp_thms if_False if_True)
  show ?thesis
  proof (cases "target \<ge> 0")
    case False
    with h assms(1) show ?thesis by simp
  next
    case ge: True
    from rng have "target < tileCount s" by (simp add: tileCount_def sz_def)
    from attemptMove_keeps_board [OF assms(1) ge this] h ge show ?thesis by simp
  qed
qed

lemma attemptMove_tileCount: "tileCount (attemptMove newId now s i) = tileCount s"
  by (simp add: tileCount_def attemptMove_activeDifficulty)

lemma attemptMoves_keep_board:
  assumes "is_board (tiles s) (difficulty_size (activeDifficulty s))"
    and "\<forall>m\<in>set ms. 0 \<le> fst m \<and> fst m < tileCount s"
  shows "is_board (tiles (attemptMoves s ms)) (difficulty_size (activeDifficulty s))
       \<and> activeDifficulty (attemptMoves s ms) = activeDifficulty s"
  using assms
proof (induction ms arbitrary: s)
  case Nil
  then show ?case by (simp add: attemptMoves_def)
next
  case (Cons m ms)
  obtain i newId now where m: "m = (i, newId, now)" by (cases m) auto
  let ?s1 = "attemptMove newId now s i"
  from Cons.prems m have i: "0 \<le> i" "i < tileCount s" by simp_all
  have d: "activeDifficulty ?s1 = activeDifficulty s" by (rule attemptMove_activeDifficulty)
  have b1: "is_board (tiles ?s1) (difficulty_size (activeDifficulty ?s1))"
    using attemptMove_keeps_board [OF Cons.prems(1) i] by (simp add: d)
  have r1: "\<forall>m\<in>set ms. 0 \<le> fst m \<and> fst m < tileCount ?s1"
    using Cons.prems(2) by (simp add: attemptMove_tileCount)
  from Cons.IH [OF b1 r1] d have
    "is_board (tiles (attemptMoves ?s1 ms)) (difficulty_size (activeDifficulty s))
     \<and> activeDifficulty (attemptMoves ?s1 ms) = activeDifficulty s" by simp
  moreover have "attemptMoves s (m # ms) = attemptMoves ?s1 ms"
    by (simp add: attemptMoves_def m)
  ultimately show ?case by simp
qed

lemma targetDifficulty_in:
  "(case find P difficulties of Some d \<Rightarrow> d | None \<Rightarrow> activeDifficulty s) \<in> set difficulties"
  using activeDifficulty_in [of s] by (auto split: option.splits dest: find_Some_iff [THEN iffD1] simp: in_set_conv_nth)

lemma startPuzzle_state:
  assumes "startPuzzle opts r rnd s0 = Some (Inr s)"
  shows "\<exists>board. shuffleBoard (difficulty_size (activeDifficulty s)) rnd = Some board
           \<and> tiles s = map Some board \<and> status s = Playing \<and> moveCount s = 0
           \<and> rankings s = rankings s0"
proof -
  define d where "d = (case find (\<lambda>entry. Some (difficulty_id entry) = targetDifficultyId opts)
      difficulties of Some d \<Rightarrow> d | None \<Rightarrow> activeDifficulty s0)"
  have din: "d \<in> set difficulties" unfolding d_def by (rule targetDifficulty_in)
  from assms obtain board img where
    sh: "shuffleBoard (difficulty_size d) rnd = Some board"
    and s: "s = s0\<lparr>difficultyId := difficulty_id d, currentImage := img,
              tiles := map Some board, moveCount := 0, status := Playing\<rparr>"
    by (auto simp: startPuzzle_def Let_def d_def [symmetric] split: sum.splits option.splits)
  have "activeDifficulty s = d"
    using din by (simp add: s activeDifficulty_def find_difficulty)
  with sh s show ?thesis by simp
qed

lemma startPuzzle_fresh_board:
  "startPuzzle \<lparr>randomImage = None, targetDifficultyId = None\<rparr> 0 example_rnd
     (session_state [] Idle 0) = Some (Inr fresh_board)"
  by code_simp

lemma list_swap_back:
  assumes "i < length xs" "e < length xs"
  shows "(xs[i := xs ! e, e := xs ! i])[e := xs[i := xs ! e, e := xs ! i] ! i,
            i := xs[i := xs ! e, e := xs ! i] ! e] = xs"
  using assms by (intro nth_equalityI) (auto simp: nth_list_update)

section \<open>The board generator\<close>

text \<open>
  Claim C1. Every board that \<open>shuffleBoard\<close> returns is a permutation of
  \<open>0..N * N - 1\<close>, passes \<open>isSolvable\<close>, is not the solved board (so \<open>isSolved\<close> is false
  of it) and does not have the empty cell, the value \<open>N * N - 1\<close>, at index 0. This holds
  for every grid size, in particular for 3, 4 and 5; the only fact used of the random
  sort is that it returns a rearrangement of its input. The loop does return a board
  as soon as the sort yields a candidate that is not rejected.
\<close>

theorem shuffleBoard_generates_solvable_board:
  assumes "sort_oracle rnd sz"
  shows "(shuffleBoard sz rnd = Some board \<longrightarrow>
            is_permutation board sz \<and> isSolvable board sz \<and> board \<noteq> createSolvedBoard sz
            \<and> \<not> isSolved (map Some board) \<and> indexOf board (sz * sz - 1) \<noteq> 0)
       \<and> (\<not> rejected (createSolvedBoard sz) (sz * sz - 1) (rnd k) sz \<longrightarrow>
            (\<exists>b. shuffleBoard sz rnd = Some b))"
proof -
  have "is_permutation board sz \<and> isSolvable board sz \<and> board \<noteq> createSolvedBoard sz
      \<and> \<not> isSolved (map Some board) \<and> indexOf board (sz * sz - 1) \<noteq> 0"
    if r: "shuffleBoard sz rnd = Some board"
    using shuffleBoard_board [OF assms r] by (simp add: isSolved_board)
  moreover have "\<exists>b. shuffleBoard sz rnd = Some b"
    if "\<not> rejected (createSolvedBoard sz) (sz * sz - 1) (rnd k) sz"
    using that by (rule shuffleBoard_returns)
  ultimately show ?thesis by blast
qed

theorem shuffleBoard_generates_solvable_board_witness:
  "sort_oracle example_rnd 3
   \<and> rejected (createSolvedBoard 3) (3 * 3 - 1) (example_rnd 0) 3
   \<and> \<not> rejected (createSolvedBoard 3) (3 * 3 - 1) (example_rnd 1) 3
   \<and> shuffleBoard 3 example_rnd = Some [0, 1, 2, 3, 4, 5, 8, 6, 7]
   \<and> is_permutation [0, 1, 2, 3, 4, 5, 8, 6, 7] 3
   \<and> isSolvable [0, 1, 2, 3, 4, 5, 8, 6, 7] 3
   \<and> [0, 1, 2, 3, 4, 5, 8, 6, 7] \<noteq> createSolvedBoard 3
   \<and> indexOf [0, 1, 2, 3, 4, 5, 8, 6, 7 :: int] (3 * 3 - 1) \<noteq> 0
   \<and> sort_oracle example_rnd4 4
   \<and> shuffleBoard 4 example_rnd4 = Some (example_rnd4 0)
   \<and> isSolvable (example_rnd4 0) 4
   \<and> sort_oracle example_rnd5 5
   \<and> shuffleBoard 5 example_rnd5 = Some (example_rnd5 0)
   \<and> isSolvable (example_rnd5 0) 5"
proof -
  have r0: "rejected (createSolvedBoard 3) (3 * 3 - 1) (example_rnd 0) 3"
    and r1: "\<not> rejected (createSolvedBoard 3) (3 * 3 - 1) (example_rnd 1) 3" by code_simp+
  have s4: "shuffleBoard 4 example_rnd4 = Some (example_rnd4 0)"
    and s5: "shuffleBoard 5 example_rnd5 = Some (example_rnd5 0)" by code_simp+
  note t3 = shuffleBoard_generates_solvable_board [OF sort_oracle_example_rnd,
      of "[0, 1, 2, 3, 4, 5, 8, 6, 7]" 1]
  note t4 = shuffleBoard_generates_solvable_board [OF sort_oracle_example_rnd4,
      of "example_rnd4 0" 0]
  note t5 = shuffleBoard_generates_solvable_board [OF sort_oracle_example_rnd5,
      of "example_rnd5 0" 0]
  from t3 shuffleBoard_example_rnd have
    "is_permutation [0, 1, 2, 3, 4, 5, 8, 6, 7] 3 \<and> isSolvable [0, 1, 2, 3, 4, 5, 8, 6, 7] 3
     \<and> [0, 1, 2, 3, 4, 5, 8, 6, 7] \<noteq> createSolvedBoard 3
     \<and> indexOf [0, 1, 2, 3, 4, 5, 8, 6, 7 :: int] (3 * 3 - 1) \<noteq> 0" by blast
  moreover from t4 s4 have "isSolvable (example_rnd4 0) 4" by blast
  moreover from t5 s5 have "isSolvable (example_rnd5 0) 5" by blast
  ultimately show ?thesis
    using sort_oracle_example_rnd sort_oracle_example_rnd4 sort_oracle_example_rnd5
      shuffleBoard_example_rnd r0 r1 s4 s5 by blast
qed

section \<open>The solvability test\<close>

lemma countInversions_inner_step:
  "j < length board \<Longrightarrow>
   countInversions_inner board b i j acc =
     countInversions_inner board b i (j + 1) (if inverted board b i j then acc + 1 else acc)"
  by (subst countInversions_inner.simps) (simp add: Let_def inverted_def)

lemma countInversions_inner_eq:
  "countInversions_inner board b i j acc =
     acc + int (length (filter (inverted board b i) [j..<length board]))"
proof (induction "length board - j" arbitrary: j acc)
  case 0
  then show ?case by (subst countInversions_inner.simps) simp
next
  case (Suc d)
  then have lt: "j < length board" and d: "d = length board - Suc j" by simp_all
  from lt have u: "[j..<length board] = j # [j + 1..<length board]" by (simp add: upt_conv_Cons)
  show ?case
    by (simp add: countInversions_inner_step [OF lt] Suc.hyps(1) [OF d] u)
qed

lemma countInversions_outer_eq:
  "countInversions_outer board b i acc =
     acc + int (\<Sum>k\<leftarrow>[i..<length board]. length (filter (inverted board b k) [k + 1..<length board]))"
proof (induction "length board - i" arbitrary: i acc)
  case 0
  then show ?case by (subst countInversions_outer.simps) simp
next
  case (Suc d)
  then have lt: "i < length board" and d: "d = length board - Suc i" by simp_all
  from lt have u: "[i..<length board] = i # [i + 1..<length board]" by (simp add: upt_conv_Cons)
  have "countInversions_outer board b i acc =
      countInversions_outer board b (i + 1) (countInversions_inner board b i (i + 1) acc)"
    using lt by (subst countInversions_outer.simps) simp
  then show ?case
    by (simp add: Suc.hyps(1) [OF d] u countInversions_inner_eq)
qed

lemma length_filter_product:
  "length (filter P (List.product xs ys)) = (\<Sum>x\<leftarrow>xs. length (filter (\<lambda>y. P (x, y)) ys))"
  by (induction xs) (simp_all add: filter_map comp_def)

lemma filter_above:
  assumes "i < n"
  shows "filter (\<lambda>j. i < j \<and> Q j) [0..<n] = filter Q [i + 1..<n]"
proof -
  have "[0..<n] = [0..<i + 1] @ [i + 1..<n]"
    using assms by (metis Suc_eq_plus1 less_eq_Suc_le upt_add_eq_append zero_le le_add_diff_inverse)
  moreover have "filter (\<lambda>j. i < j \<and> Q j) [0..<i + 1] = []" by (auto simp: filter_empty_conv)
  moreover have "filter (\<lambda>j. i < j \<and> Q j) [i + 1..<n] = filter Q [i + 1..<n]"
    by (rule filter_cong) auto
  ultimately show ?thesis by simp
qed

lemma spec_inversions_sum:
  "spec_inversions board b =
     (\<Sum>k\<leftarrow>[0..<length board]. length (filter (inverted board b k) [k + 1..<length board]))"
proof -
  have "spec_inversions board b =
      (\<Sum>k\<leftarrow>[0..<length board]. length (filter (\<lambda>j. k < j \<and> inverted board b k j) [0..<length board]))"
    by (simp add: spec_inversions_def length_filter_product inverted_def)
  also have "\<dots> = (\<Sum>k\<leftarrow>[0..<length board]. length (filter (inverted board b k) [k + 1..<length board]))"
    by (rule arg_cong [where f = sum_list], rule map_cong) (simp_all add: filter_above)
  finally show ?thesis .
qed

lemma countInversions_spec: "countInversions board b = int (spec_inversions board b)"
  by (simp add: countInversions_def countInversions_outer_eq spec_inversions_sum)

lemma indexOf_spec: "b \<in> set board \<Longrightarrow> indexOf board b = int (spec_blankIndex board b)"
  by (induction board) (auto simp: spec_blankIndex_def Let_def)

lemma js_rem_2_even: "js_rem x 2 = 0 \<longleftrightarrow> even x"
  by (auto simp: js_rem_def sgn_if; presburger)

lemma js_rem_2_odd: "0 \<le> x \<Longrightarrow> js_rem x 2 = 1 \<longleftrightarrow> odd x"
  by (auto simp: js_rem_def sgn_if; presburger)

text \<open>
  Claim C2. On every permutation of \<open>0..size * size - 1\<close> (for a positive size)
  \<open>isSolvable\<close> returns the value of the specification's parity rule: with the
  inversions counted over the pairs of non-empty tiles and \<open>blankRowFromBottom\<close> the size
  minus the row of the blank, an odd size is solvable iff the count is even, and an even
  size iff an even \<open>blankRowFromBottom\<close> comes with an odd count and an odd one with an
  even count.
\<close>

theorem isSolvable_is_parity_rule:
  assumes "0 < sz" and "is_permutation board sz"
  shows "isSolvable board sz = spec_solvable board sz"
proof -
  note f = is_permutation_facts [OF assms(2)]
  from assms(1) have "0 < sz * sz" by simp
  then have len: "int (length board) - 1 = sz * sz - 1" using f(1) by simp
  from \<open>0 < sz * sz\<close> have "sz * sz - 1 \<in> set board" using f(3) by simp
  then have idx: "indexOf board (sz * sz - 1) = int (spec_blankIndex board (sz * sz - 1))"
    by (rule indexOf_spec)
  have inv: "countInversions board (sz * sz - 1) = int (spec_inversions board (sz * sz - 1))"
    by (rule countInversions_spec)
  show ?thesis
    using assms(1)
    by (simp add: isSolvable_def spec_solvable_def Let_def len idx inv js_rem_2_even js_rem_2_odd)
qed

theorem isSolvable_is_parity_rule_witness:
  "(0::int) < 4
   \<and> is_permutation [0, 1, 2, 3, 4, 5, 6, 7, 8, 9, 10, 11, 12, 13, 15, 14] 4
   \<and> isSolvable [0, 1, 2, 3, 4, 5, 6, 7, 8, 9, 10, 11, 12, 13, 15, 14] 4
   \<and> spec_solvable [0, 1, 2, 3, 4, 5, 6, 7, 8, 9, 10, 11, 12, 13, 15, 14] 4
   \<and> is_permutation [1, 0, 2, 3, 4, 5, 6, 7, 8, 9, 10, 11, 12, 13, 14, 15] 4
   \<and> \<not> isSolvable [1, 0, 2, 3, 4, 5, 6, 7, 8, 9, 10, 11, 12, 13, 14, 15] 4
   \<and> \<not> spec_solvable [1, 0, 2, 3, 4, 5, 6, 7, 8, 9, 10, 11, 12, 13, 14, 15] 4"
proof -
  have p: "(0::int) < 4" by simp
  have a: "is_permutation [0, 1, 2, 3, 4, 5, 6, 7, 8, 9, 10, 11, 12, 13, 15, 14] 4"
    and b: "is_permutation [1, 0, 2, 3, 4, 5, 6, 7, 8, 9, 10, 11, 12, 13, 14, 15] 4"
    by code_simp+
  have sa: "spec_solvable [0, 1, 2, 3, 4, 5, 6, 7, 8, 9, 10, 11, 12, 13, 15, 14] 4"
    and sb: "\<not> spec_solvable [1, 0, 2, 3, 4, 5, 6, 7, 8, 9, 10, 11, 12, 13, 14, 15] 4"
    by code_simp+
  from isSolvable_is_parity_rule [OF p a] isSolvable_is_parity_rule [OF p b] p a b sa sb
  show ?thesis by blast
qed

section \<open>A move changes the board exactly when its target is next to the empty cell\<close>

text \<open>
  Claim C3, amended. While the status is \<open>playing\<close>, on a board (a permutation of
  \<open>0..N * N - 1\<close>) and for every integer index \<open>i\<close>: \<open>attemptMove\<close> changes the board if and
  only if \<open>isAdjacent\<close> holds of \<open>i\<close> and the index \<open>e\<close> of the empty cell, which for an
  index from 0 on is orthogonal adjacency on the grid (same row and columns one apart, or
  same column and rows one apart). On success with \<open>i\<close> inside the board, in
  \<open>0..N * N - 1\<close>, the result is the board with the two positions swapped (for every \<open>i\<close>
  from 0 on the cells at \<open>i\<close> and \<open>e\<close> are exchanged and every other cell reads as
  before). Otherwise the whole state is returned as it was.
\<close>

theorem attemptMove_moves_iff_adjacent:
  assumes "status s = Playing"
    and "is_board (tiles s) (difficulty_size (activeDifficulty s))"
  shows "(let sz = difficulty_size (activeDifficulty s);
              e = indexOf (tiles s) (Some (blankValue s));
              s' = attemptMove newId now s i
          in (tiles s' \<noteq> tiles s \<longleftrightarrow> isAdjacent i e sz)
           \<and> (0 \<le> i \<longrightarrow>
                (isAdjacent i e sz \<longleftrightarrow>
                   (i div sz = e div sz \<and> \<bar>i mod sz - e mod sz\<bar> = 1)
                 \<or> (i mod sz = e mod sz \<and> \<bar>i div sz - e div sz\<bar> = 1)))
           \<and> (isAdjacent i e sz \<and> 0 \<le> i \<longrightarrow>
                (\<forall>k. cell_at (tiles s') k =
                   (if k = i then cell_at (tiles s) e
                    else if k = e then cell_at (tiles s) i else cell_at (tiles s) k)))
           \<and> (isAdjacent i e sz \<and> 0 \<le> i \<and> i < sz * sz \<longrightarrow>
                tiles s' = (tiles s)[nat i := tiles s ! nat e, nat e := tiles s ! nat i])
           \<and> (\<not> isAdjacent i e sz \<longrightarrow> s' = s))"
proof -
  define sz where "sz = difficulty_size (activeDifficulty s)"
  define e where "e = indexOf (tiles s) (Some (blankValue s))"
  define s' where "s' = attemptMove newId now s i"
  have pos: "0 < sz" by (simp add: sz_def active_size_pos)
  have bv: "blankValue s = sz * sz - 1" by (simp add: sz_def blankValue_active)
  have brd: "is_board (tiles s) sz" using assms(2) by (simp add: sz_def)
  note b = blank_in_board [OF brd pos, folded bv, folded e_def]
  have t: "tiles s' = (if isAdjacent i e sz then swap_cells (tiles s) i e else tiles s)"
    using assms(1) by (simp add: s'_def attemptMove_tiles Let_def e_def sz_def)
  have c1: "tiles s' \<noteq> tiles s \<longleftrightarrow> isAdjacent i e sz"
    using legal_swap_changes [OF brd pos, folded bv, folded e_def, of i] t by auto
  have c2: "0 \<le> i \<longrightarrow>
      (isAdjacent i e sz \<longleftrightarrow>
         (i div sz = e div sz \<and> \<bar>i mod sz - e mod sz\<bar> = 1)
       \<or> (i mod sz = e mod sz \<and> \<bar>i div sz - e div sz\<bar> = 1))"
    using isAdjacent_grid [of i e sz] b(1) pos by blast
  have c3: "isAdjacent i e sz \<and> 0 \<le> i \<longrightarrow>
      (\<forall>k. cell_at (tiles s') k =
         (if k = i then cell_at (tiles s) e
          else if k = e then cell_at (tiles s) i else cell_at (tiles s) k))"
  proof (intro impI allI)
    fix k
    assume a: "isAdjacent i e sz \<and> 0 \<le> i"
    then have "i \<noteq> e" using isAdjacent_irrefl by auto
    with a b(1,2,4) have "cell_at (swap_cells (tiles s) i e) k =
        (if k = i then cell_at (tiles s) e
         else if k = e then cell_at (tiles s) i else cell_at (tiles s) k)"
      by (intro swap_cells_pointwise) simp_all
    with a t show "cell_at (tiles s') k =
         (if k = i then cell_at (tiles s) e
          else if k = e then cell_at (tiles s) i else cell_at (tiles s) k)" by simp
  qed
  have c4: "isAdjacent i e sz \<and> 0 \<le> i \<and> i < sz * sz \<longrightarrow>
      tiles s' = (tiles s)[nat i := tiles s ! nat e, nat e := tiles s ! nat i]"
    using t b(1,2,4) by (simp add: swap_cells_in_range)
  have c5: "\<not> isAdjacent i e sz \<longrightarrow> s' = s"
    by (simp add: s'_def e_def sz_def attemptMove_illegal)
  from c1 c2 c3 c4 c5 show ?thesis
    unfolding Let_def sz_def [symmetric] e_def [symmetric] s'_def [symmetric] by blast
qed

theorem attemptMove_moves_iff_adjacent_witness:
  "status one_move_left = Playing
   \<and> is_board (tiles one_move_left) (difficulty_size (activeDifficulty one_move_left))
   \<and> isAdjacent 4 7 3
   \<and> tiles (attemptMove ''id1'' 1000 one_move_left 4) = map Some [0, 1, 2, 3, 8, 5, 6, 4, 7]
   \<and> tiles (attemptMove ''id1'' 1000 one_move_left 4) \<noteq> tiles one_move_left
   \<and> \<not> isAdjacent 0 7 3
   \<and> attemptMove ''id1'' 1000 one_move_left 0 = one_move_left"
proof -
  have st: "status one_move_left = Playing" by code_simp
  have brd: "is_board (tiles one_move_left) (difficulty_size (activeDifficulty one_move_left))"
    by code_simp
  have e: "indexOf (tiles one_move_left) (Some (blankValue one_move_left)) = 7" by code_simp
  have sz: "difficulty_size (activeDifficulty one_move_left) = 3" by code_simp
  have a4: "isAdjacent 4 7 3" and a0: "\<not> isAdjacent 0 7 3" by code_simp+
  have brd3: "is_board (tiles one_move_left) 3" by code_simp
  have sw: "(tiles one_move_left)[4 := tiles one_move_left ! 7,
              7 := tiles one_move_left ! 4] = map Some [0, 1, 2, 3, 8, 5, 6, 4, 7]"
    by code_simp
  note t4 = attemptMove_moves_iff_adjacent [OF st brd, of "''id1''" 1000 4, unfolded Let_def e sz]
  note t0 = attemptMove_moves_iff_adjacent [OF st brd, of "''id1''" 1000 0, unfolded Let_def e sz]
  from t4 a4 have moved: "tiles (attemptMove ''id1'' 1000 one_move_left 4) \<noteq> tiles one_move_left"
    by blast
  from t4 a4 have swapped: "tiles (attemptMove ''id1'' 1000 one_move_left 4) =
      (tiles one_move_left)[4 := tiles one_move_left ! 7, 7 := tiles one_move_left ! 4]"
    by simp
  from t0 a0 have same: "attemptMove ''id1'' 1000 one_move_left 0 = one_move_left"
    by blast
  from swapped have "tiles (attemptMove ''id1'' 1000 one_move_left 4) =
      map Some [0, 1, 2, 3, 8, 5, 6, 4, 7]" by (simp only: sw)
  with st brd a4 a0 moved same show ?thesis by blast
qed

text \<open>
  Both restrictions are needed. After the click that solves \<open>one_move_left\<close> the status
  is \<open>solved\<close>: index 7 is next to the empty cell at index 8, yet \<open>attemptMove\<close> returns
  at its status guard and the board stays as it is. And in the playing state
  \<open>blank_first\<close>, \<open>isAdjacent\<close> accepts the index \<open>-3\<close> next to the empty cell at index 0
  (row \<open>-1\<close> and row 0 of column 0): the write at \<open>-3\<close> sets no element, so the result
  has \<open>undefined\<close> at index 0 and is not the board with two positions swapped.
\<close>

theorem attemptMove_guard_and_range:
  "status (attemptMove ''id1'' 1000 one_move_left 8) = Solved
   \<and> is_board (tiles (attemptMove ''id1'' 1000 one_move_left 8))
         (difficulty_size (activeDifficulty (attemptMove ''id1'' 1000 one_move_left 8)))
   \<and> indexOf (tiles (attemptMove ''id1'' 1000 one_move_left 8))
         (Some (blankValue (attemptMove ''id1'' 1000 one_move_left 8))) = 8
   \<and> isAdjacent 7 8 3
   \<and> tiles (attemptMove ''id2'' 2000 (attemptMove ''id1'' 1000 one_move_left 8) 7)
       = tiles (attemptMove ''id1'' 1000 one_move_left 8)
   \<and> status blank_first = Playing
   \<and> is_board (tiles blank_first) (difficulty_size (activeDifficulty blank_first))
   \<and> indexOf (tiles blank_first) (Some (blankValue blank_first)) = 0
   \<and> isAdjacent (- 3) 0 3
   \<and> tiles blank_first = map Some [8, 0, 1, 2, 3, 4, 5, 6, 7]
   \<and> tiles (attemptMove ''id1'' 1000 blank_first (- 3))
       = [None, Some 0, Some 1, Some 2, Some 3, Some 4, Some 5, Some 6, Some 7]"
  by code_simp

section \<open>The solved state is left only by a restart\<close>

text \<open>
  Claim C7. While the status is \<open>solved\<close>, a move submitted by tile index (a click, or
  a direct call of \<open>attemptMove\<close>) or by any key leaves the whole state as it is: the
  board, the move counter, the status and the ranking list. This includes the two
  restart keys, which \<open>handleKeyDown\<close> ignores unless the status is \<open>playing\<close>.
\<close>

theorem solved_moves_do_nothing:
  assumes "status s = Solved"
  shows "attemptMove newId now s tileIndex = s
       \<and> handleTileClick newId now s tileIndex = s
       \<and> handleKeyDown newId now r rnd s key = Some (Inr s)"
  using assms by (simp add: attemptMove_def handleTileClick_def handleKeyDown_def)

theorem solved_moves_do_nothing_witness:
  "status (session_state [0, 1, 2, 3, 4, 5, 6, 7, 8] Solved 12) = Solved
   \<and> attemptMove ''id1'' 1000 (session_state [0, 1, 2, 3, 4, 5, 6, 7, 8] Solved 12) 7
       = session_state [0, 1, 2, 3, 4, 5, 6, 7, 8] Solved 12
   \<and> handleKeyDown ''id1'' 1000 0 (\<lambda>k. []) (session_state [0, 1, 2, 3, 4, 5, 6, 7, 8] Solved 12)
         ''ArrowDown''
       = Some (Inr (session_state [0, 1, 2, 3, 4, 5, 6, 7, 8] Solved 12))"
proof -
  have st: "status (session_state [0, 1, 2, 3, 4, 5, 6, 7, 8] Solved 12) = Solved"
    by (simp add: session_state_def)
  from solved_moves_do_nothing [OF st, of "''id1''" 1000 7 0 "\<lambda>k. []" "''ArrowDown''"] st
  show ?thesis by simp
qed

section \<open>The move counter\<close>

text \<open>
  Claim C8. While the status is \<open>playing\<close>, a legal move (a target adjacent to the empty
  cell) adds exactly 1 to the move counter and an illegal one leaves it as it is. On the
  move that solves the board the status becomes \<open>solved\<close> and the entry recorded in the
  ranking list (and written to the store) carries the counter's final value, the last
  move included.
\<close>

theorem move_counter_counts_legal_moves:
  assumes "status s = Playing"
  shows "(let legal = isAdjacent tileIndex (indexOf (tiles s) (Some (blankValue s)))
                        (difficulty_size (activeDifficulty s));
              s' = attemptMove newId now s tileIndex;
              entry = persistRanking_entry newId now (moveCount s + 1) s
          in (legal \<longrightarrow> moveCount s' = moveCount s + 1)
           \<and> (\<not> legal \<longrightarrow> moveCount s' = moveCount s)
           \<and> (legal \<and> isSolved (tiles s') \<longrightarrow>
                  status s' = Solved \<and> moves entry = moveCount s'
                  \<and> rankings s' = recordResult (rankings s) entry
                  \<and> stored s' = Some (rankings s'))
           \<and> (legal \<and> \<not> isSolved (tiles s') \<longrightarrow>
                  status s' = Playing \<and> rankings s' = rankings s))"
  using assms
  by (simp add: attemptMove_def Let_def persistRanking_def storeRankings_def
      persistRanking_entry_def activeDifficulty_def)

theorem move_counter_counts_legal_moves_witness:
  "status one_move_left = Playing
   \<and> isAdjacent 8 (indexOf (tiles one_move_left) (Some (blankValue one_move_left)))
        (difficulty_size (activeDifficulty one_move_left))
   \<and> isSolved (tiles (attemptMove ''id1'' 1000 one_move_left 8))
   \<and> moveCount one_move_left = 4
   \<and> moveCount (attemptMove ''id1'' 1000 one_move_left 8) = 5
   \<and> status (attemptMove ''id1'' 1000 one_move_left 8) = Solved
   \<and> map moves (rankings (attemptMove ''id1'' 1000 one_move_left 8)) = [5]"
proof -
  have st: "status one_move_left = Playing" by code_simp
  have adj: "isAdjacent 8 (indexOf (tiles one_move_left) (Some (blankValue one_move_left)))
        (difficulty_size (activeDifficulty one_move_left))" by code_simp
  have sol: "isSolved (tiles (attemptMove ''id1'' 1000 one_move_left 8))" by code_simp
  have rk: "rankings one_move_left = []" by code_simp
  have mc: "moveCount one_move_left = 4" by code_simp
  from move_counter_counts_legal_moves [OF st, of 8 "''id1''" 1000] adj sol st
  show ?thesis
    by (simp add: Let_def rk mc recordResult_def persistRanking_entry_def)
qed

section \<open>Every board of a session is a permutation\<close>

text \<open>
  Claim C6, amended. The board that \<open>startPuzzle\<close> installs from the generator and every
  board obtained from it by a sequence of calls of \<open>attemptMove\<close> whose indices lie in
  \<open>0..N * N - 1\<close> is a permutation of \<open>0..N * N - 1\<close>. These are the indices the handlers
  pass: a click passes the index of a rendered tile, and the target of a move key lies
  inside the board (\<open>handleKeyDown_keeps_board\<close>).
\<close>

theorem board_stays_permutation:
  assumes "startPuzzle opts r rnd s0 = Some (Inr s)"
    and "sort_oracle rnd (difficulty_size (activeDifficulty s))"
    and "\<forall>m\<in>set ms. 0 \<le> fst m \<and> fst m < tileCount s"
  shows "is_board (tiles s) (difficulty_size (activeDifficulty s))
       \<and> is_board (tiles (attemptMoves s ms)) (difficulty_size (activeDifficulty s))"
proof -
  from startPuzzle_state [OF assms(1)] obtain board where
    b: "shuffleBoard (difficulty_size (activeDifficulty s)) rnd = Some board"
       "tiles s = map Some board" by blast
  from shuffleBoard_board(1) [OF assms(2) b(1)] b(2)
  have brd: "is_board (tiles s) (difficulty_size (activeDifficulty s))"
    by (simp add: is_board_map_Some)
  with attemptMoves_keep_board [OF brd assms(3)] show ?thesis by simp
qed

text \<open>A run: three moves from the board of \<open>fresh_board\<close>, the second one illegal.\<close>

theorem board_stays_permutation_witness:
  "startPuzzle \<lparr>randomImage = None, targetDifficultyId = None\<rparr> 0 example_rnd
     (session_state [] Idle 0) = Some (Inr fresh_board)
   \<and> sort_oracle example_rnd (difficulty_size (activeDifficulty fresh_board))
   \<and> tiles (attemptMoves fresh_board [(7, ''id1'', 1000), (2, ''id2'', 2000), (4, ''id3'', 3000)])
       = map Some [0, 1, 2, 3, 8, 5, 6, 4, 7]
   \<and> is_board (tiles (attemptMoves fresh_board
         [(7, ''id1'', 1000), (2, ''id2'', 2000), (4, ''id3'', 3000)]))
       (difficulty_size (activeDifficulty fresh_board))"
proof -
  have sz: "difficulty_size (activeDifficulty fresh_board) = 3" by code_simp
  have o: "sort_oracle example_rnd (difficulty_size (activeDifficulty fresh_board))"
    by (simp only: sz sort_oracle_example_rnd)
  have r: "\<forall>m\<in>set [(7, ''id1'', 1000), (2, ''id2'', 2000), (4, ''id3'', 3000)].
      0 \<le> fst m \<and> fst m < tileCount fresh_board"
    by code_simp
  have t: "tiles (attemptMoves fresh_board [(7, ''id1'', 1000), (2, ''id2'', 2000), (4, ''id3'', 3000)])
       = map Some [0, 1, 2, 3, 8, 5, 6, 4, 7]" by code_simp
  from board_stays_permutation [OF startPuzzle_fresh_board o r] startPuzzle_fresh_board o t
  show ?thesis by blast
qed

text \<open>
  The restriction on the indices is needed. \<open>attemptMove\<close> has no range check of its own,
  and \<open>isAdjacent\<close> accepts the index 9 when the empty cell is at index 6 of a 3 x 3
  board (row 3 and row 2 of column 0): the swap then extends the array to ten cells and
  leaves \<open>undefined\<close> at index 6.
\<close>

theorem out_of_range_move_breaks_board:
  "startPuzzle \<lparr>randomImage = None, targetDifficultyId = None\<rparr> 0 example_rnd
     (session_state [] Idle 0) = Some (Inr fresh_board)
   \<and> tiles (attemptMoves fresh_board [(9, ''id1'', 1000)]) =
       [Some 0, Some 1, Some 2, Some 3, Some 4, Some 5, None, Some 6, Some 7, Some 8]
   \<and> \<not> is_board (tiles (attemptMoves fresh_board [(9, ''id1'', 1000)]))
         (difficulty_size (activeDifficulty fresh_board))"
  by code_simp

section \<open>Undoing a move\<close>

text \<open>
  Claim C10, amended. On a board with the empty cell at index \<open>e\<close>, a legal move at an
  index \<open>i\<close> inside the board that does not solve the puzzle is undone by the move at
  \<open>e\<close>: after the first move the empty cell is at \<open>i\<close>, \<open>isAdjacent\<close> is symmetric, and
  the second move gives back the original board (the counter has then counted both).
\<close>

theorem legal_move_is_undone:
  assumes "status s = Playing"
    and "is_board (tiles s) (difficulty_size (activeDifficulty s))"
    and "0 \<le> i" and "i < tileCount s"
    and "isAdjacent i (indexOf (tiles s) (Some (blankValue s))) (difficulty_size (activeDifficulty s))"
    and "\<not> isSolved (tiles (attemptMove newId now s i))"
  shows "(let e = indexOf (tiles s) (Some (blankValue s));
              s1 = attemptMove newId now s i;
              s2 = attemptMove newId' now' s1 e
          in tiles s2 = tiles s
           \<and> indexOf (tiles s1) (Some (blankValue s1)) = i
           \<and> isAdjacent e i (difficulty_size (activeDifficulty s))
           \<and> moveCount s2 = moveCount s + 2)"
proof -
  define sz where "sz = difficulty_size (activeDifficulty s)"
  define e where "e = indexOf (tiles s) (Some (blankValue s))"
  define s1 where "s1 = attemptMove newId now s i"
  define s2 where "s2 = attemptMove newId' now' s1 e"
  have pos: "0 < sz" by (simp add: sz_def active_size_pos)
  have bv: "blankValue s = sz * sz - 1" by (simp add: sz_def blankValue_active)
  have brd: "is_board (tiles s) sz" using assms(2) by (simp add: sz_def)
  note b = blank_in_board [OF brd pos, folded bv, folded e_def]
  from assms(4) have i: "i < sz * sz" by (simp add: tileCount_def sz_def)
  have adj: "isAdjacent i e sz" using assms(5) by (simp add: e_def sz_def)
  then have adj': "isAdjacent e i sz" by (simp add: isAdjacent_sym)
  have ni: "nat i < length (tiles s)" and ne: "nat e < length (tiles s)"
    using assms(3) i b by linarith+
  have t1: "tiles s1 = (tiles s)[nat i := tiles s ! nat e, nat e := tiles s ! nat i]"
    using assms(1,3) adj i b
    by (simp add: s1_def attemptMove_tiles Let_def e_def [symmetric] sz_def [symmetric]
        swap_cells_in_range)
  have st1: "status s1 = Playing"
    using assms(1,6) by (simp add: s1_def attemptMove_status)
  have d1: "activeDifficulty s1 = activeDifficulty s"
    by (simp add: s1_def attemptMove_activeDifficulty)
  have bv1: "blankValue s1 = blankValue s" by (simp add: s1_def attemptMove_blankValue)
  have brd1: "is_board (tiles s1) sz"
    using attemptMove_keeps_board [OF assms(2,3,4)] by (simp add: s1_def sz_def)
  note b1 = blank_in_board [OF brd1 pos, folded bv, folded bv1]
  have "nat i \<noteq> nat e" using adj isAdjacent_irrefl assms(3) b(1) by (metis nat_eq_iff)
  then have "tiles s1 ! nat i = Some (blankValue s)"
    using ni ne b(3) by (simp add: t1 nth_list_update)
  moreover have "nat i < length (tiles s1)" using ni by (simp add: t1)
  ultimately have "indexOf (tiles s1) (Some (blankValue s)) = int (nat i)"
    using indexOf_nth [OF b1(5), of "nat i"] by simp
  with assms(3) have e1: "indexOf (tiles s1) (Some (blankValue s1)) = i" by (simp add: bv1)
  have "tiles s2 = swap_cells (tiles s1) e i"
    using st1 adj' by (simp add: s2_def attemptMove_tiles Let_def e1 d1 sz_def [symmetric])
  also have "\<dots> = (tiles s1)[nat e := tiles s1 ! nat i, nat i := tiles s1 ! nat e]"
    using assms(3) ni ne b(1) by (simp add: swap_cells_in_range t1)
  also have "\<dots> = tiles s" unfolding t1 using ni ne by (rule list_swap_back)
  finally have r1: "tiles s2 = tiles s" .
  have m1: "moveCount s1 = moveCount s + 1"
    using assms(1) adj
    by (simp add: s1_def attemptMove_def Let_def e_def [symmetric] sz_def [symmetric]
        persistRanking_def storeRankings_def)
  have "moveCount s2 = moveCount s1 + 1"
    using st1 adj'
    by (simp add: s2_def attemptMove_def Let_def e1 d1 sz_def [symmetric]
        persistRanking_def storeRankings_def)
  with m1 have r4: "moveCount s2 = moveCount s + 2" by simp
  from r1 e1 adj' r4 show ?thesis
    unfolding Let_def e_def [symmetric] s1_def [symmetric] s2_def [symmetric] sz_def [symmetric]
    by simp
qed

theorem legal_move_is_undone_witness:
  "status fresh_board = Playing
   \<and> is_board (tiles fresh_board) (difficulty_size (activeDifficulty fresh_board))
   \<and> indexOf (tiles fresh_board) (Some (blankValue fresh_board)) = 6
   \<and> isAdjacent 7 6 3
   \<and> tiles (attemptMove ''id1'' 1000 fresh_board 7) = map Some [0, 1, 2, 3, 4, 5, 6, 8, 7]
   \<and> tiles (attemptMove ''id2'' 2000 (attemptMove ''id1'' 1000 fresh_board 7) 6)
       = tiles fresh_board"
proof -
  have st: "status fresh_board = Playing" by code_simp
  have brd: "is_board (tiles fresh_board) (difficulty_size (activeDifficulty fresh_board))"
    by code_simp
  have e: "indexOf (tiles fresh_board) (Some (blankValue fresh_board)) = 6" by code_simp
  have sz: "difficulty_size (activeDifficulty fresh_board) = 3" by code_simp
  have a: "isAdjacent 7 6 3" by code_simp
  have r: "(0::int) \<le> 7" "7 < tileCount fresh_board" by code_simp+
  have t: "tiles (attemptMove ''id1'' 1000 fresh_board 7) = map Some [0, 1, 2, 3, 4, 5, 6, 8, 7]"
    by code_simp
  have ns: "\<not> isSolved (tiles (attemptMove ''id1'' 1000 fresh_board 7))" by code_simp
  have adj: "isAdjacent 7 (indexOf (tiles fresh_board) (Some (blankValue fresh_board)))
      (difficulty_size (activeDifficulty fresh_board))" by (simp only: e sz a)
  note u = legal_move_is_undone [OF st brd r adj ns, of "''id2''" 2000, unfolded Let_def e]
  from u have "tiles (attemptMove ''id2'' 2000 (attemptMove ''id1'' 1000 fresh_board 7) 6)
       = tiles fresh_board" by blast
  with st brd e a t show ?thesis by blast
qed

text \<open>
  When the first move solves the puzzle the status becomes \<open>solved\<close>, the second call of
  \<open>attemptMove\<close> returns at once, and the board stays solved.
\<close>

theorem solving_move_is_not_undone:
  "status one_move_left = Playing
   \<and> is_board (tiles one_move_left) (difficulty_size (activeDifficulty one_move_left))
   \<and> indexOf (tiles one_move_left) (Some (blankValue one_move_left)) = 7
   \<and> isAdjacent 8 7 3
   \<and> tiles (attemptMove ''id1'' 1000 one_move_left 8) = map Some [0, 1, 2, 3, 4, 5, 6, 7, 8]
   \<and> tiles (attemptMove ''id2'' 2000 (attemptMove ''id1'' 1000 one_move_left 8) 7)
       \<noteq> tiles one_move_left"
  by code_simp

section \<open>The ranking list\<close>

lemma insort_insert_after:
  "insort_key f x (insert_after f e ys) = insert_after f e (insort_key f x ys)"
  by (induction ys) auto

lemma sort_key_snoc: "sort_key f (xs @ [e]) = insert_after f e (sort_key f xs)"
  by (induction xs) (simp_all add: insort_insert_after)

lemma take_insert_after_take:
  "take n (insert_after f e (take n ys)) = take n (insert_after f e ys)"
proof (induction ys arbitrary: n)
  case Nil
  then show ?case by simp
next
  case (Cons y ys)
  show ?case
  proof (cases n)
    case 0
    then show ?thesis by simp
  next
    case (Suc m)
    show ?thesis
    proof (cases "f y \<le> f e")
      case True
      with Suc Cons.IH [of m] show ?thesis by simp
    next
      case False
      have "take m (y # take m ys) = take m (y # ys)"
        by (cases m) simp_all
      with Suc False show ?thesis by simp
    qed
  qed
qed

lemma sorted_take_sort_key: "sort_key f (take n (sort_key f xs)) = take n (sort_key f xs)"
proof -
  have "sorted (map f (sort_key f xs))" by simp
  then have "sorted (map f (take n (sort_key f xs)))"
    by (simp add: take_map [symmetric] sorted_wrt_take)
  then show ?thesis by (rule sort_key_id_if_sorted)
qed

lemma take_sort_take_snoc:
  "take n (sort_key f (take n (sort_key f xs) @ [e])) = take n (sort_key f (xs @ [e]))"
  by (simp only: sort_key_snoc sorted_take_sort_key take_insert_after_take)

lemma recordResult_fold:
  "foldl recordResult previous (es @ [e]) = take 8 (sort_key moves (previous @ es @ [e]))"
proof (induction es arbitrary: e rule: rev_induct)
  case Nil
  then show ?case by (simp add: recordResult_def)
next
  case (snoc x xs)
  have "foldl recordResult previous ((xs @ [x]) @ [e]) =
      recordResult (foldl recordResult previous (xs @ [x])) e" by simp
  also have "\<dots> = take 8 (sort_key moves (take 8 (sort_key moves (previous @ xs @ [x])) @ [e]))"
    by (simp only: snoc.IH recordResult_def)
  also have "\<dots> = take 8 (sort_key moves ((previous @ xs @ [x]) @ [e]))"
    by (rule take_sort_take_snoc)
  finally show ?case by simp
qed

lemma filter_take_prefix:
  "filter P (take n xs) = take (length (filter P (take n xs))) (filter P xs)"
proof -
  have "filter P xs = filter P (take n xs) @ filter P (drop n xs)"
    by (metis append_take_drop_id filter_append)
  then show ?thesis by simp
qed

lemma sorted_take_le_drop:
  assumes "sorted (map f xs)" "x \<in> set (take n xs)" "y \<in> set (drop n xs)"
  shows "f x \<le> f y"
proof -
  from assms(1) have "sorted (map f (take n xs) @ map f (drop n xs))"
    by (metis append_take_drop_id map_append)
  with assms(2,3) show ?thesis by (auto simp: sorted_append)
qed

text \<open>
  Claim C4. \<open>recordResult\<close> (the update of \<open>persistRanking\<close>) on any list and entry
  returns the first 8 entries of the stable sort by move count of the list with the entry
  appended: the result is ascending, has at most 8 entries, the entries it drops have
  move counts no lower than those it keeps, and entries with equal move counts keep the
  order in which they were inserted, the new entry last. Recording several results one
  after the other leaves the first 8 of the stable sort of all of them, so with more
  than 8 results exactly the 8 lowest remain, in ascending order.
\<close>

theorem recordResult_keeps_lowest:
  "(let sorted_all = sort_key moves (previous @ [entry]);
        r = recordResult previous entry
    in sorted (map moves r)
     \<and> length r = min 8 (length previous + 1)
     \<and> mset (previous @ [entry]) = mset r + mset (drop 8 sorted_all)
     \<and> (\<forall>x\<in>set r. \<forall>y\<in>set (drop 8 sorted_all). moves x \<le> moves y)
     \<and> (\<forall>k. filter (\<lambda>x. moves x = k) r =
              take (length (filter (\<lambda>x. moves x = k) r))
                (filter (\<lambda>x. moves x = k) (previous @ [entry]))))
   \<and> foldl recordResult previous (es @ [e]) = take 8 (sort_key moves (previous @ es @ [e]))
   \<and> sorted (map moves (foldl recordResult previous (es @ [e])))
   \<and> length (foldl recordResult previous (es @ [e])) = min 8 (length previous + length es + 1)"
proof -
  define S where "S = sort_key moves (previous @ [entry])"
  define r where "r = recordResult previous entry"
  have r: "r = take 8 S" by (simp add: r_def S_def recordResult_def)
  have srt: "sorted (map moves S)" by (simp add: S_def)
  have c1: "sorted (map moves r)"
    using srt by (simp add: r take_map [symmetric] sorted_wrt_take)
  have c2: "length r = min 8 (length previous + 1)" by (simp add: r S_def min_def)
  have "mset (previous @ [entry]) = mset S" by (simp add: S_def)
  also have "\<dots> = mset (take 8 S) + mset (drop 8 S)"
    by (metis append_take_drop_id mset_append)
  finally have c3: "mset (previous @ [entry]) = mset r + mset (drop 8 S)" by (simp add: r)
  have c4: "\<forall>x\<in>set r. \<forall>y\<in>set (drop 8 S). moves x \<le> moves y"
    using sorted_take_le_drop [OF srt] by (auto simp: r)
  have c5: "\<forall>k. filter (\<lambda>x. moves x = k) r =
      take (length (filter (\<lambda>x. moves x = k) r)) (filter (\<lambda>x. moves x = k) (previous @ [entry]))"
  proof
    fix k
    have "filter (\<lambda>x. moves x = k) S = filter (\<lambda>x. moves x = k) (previous @ [entry])"
      unfolding S_def by (rule sort_key_stable)
    with filter_take_prefix [of "\<lambda>x. moves x = k" 8 S]
    show "filter (\<lambda>x. moves x = k) r =
      take (length (filter (\<lambda>x. moves x = k) r)) (filter (\<lambda>x. moves x = k) (previous @ [entry]))"
      by (simp add: r)
  qed
  have f1: "foldl recordResult previous (es @ [e]) = take 8 (sort_key moves (previous @ es @ [e]))"
    by (rule recordResult_fold)
  have f2: "sorted (map moves (foldl recordResult previous (es @ [e])))"
    unfolding f1 by (simp add: take_map [symmetric] sorted_wrt_take del: sort_key_simps)
  have f3: "length (foldl recordResult previous (es @ [e])) = min 8 (length previous + length es + 1)"
    unfolding f1 by (simp add: min_def)
  from c1 c2 c3 c4 c5 f1 f2 f3 show ?thesis
    unfolding Let_def S_def [symmetric] r_def [symmetric] by blast
qed

theorem recordResult_keeps_lowest_witness:
  "length nine_results = 9
   \<and> map moves nine_results = [30, 12, 45, 12, 60, 7, 45, 90, 20]
   \<and> map moves (foldl recordResult [] nine_results) = [7, 12, 12, 20, 30, 45, 45, 60]
   \<and> map entry_id (foldl recordResult [] nine_results)
       = [''f'', ''b'', ''d'', ''i'', ''a'', ''c'', ''g'', ''e'']
   \<and> foldl recordResult [] nine_results = take 8 (sort_key moves nine_results)
   \<and> sorted (map moves (foldl recordResult [] nine_results))
   \<and> length (foldl recordResult [] nine_results) = 8"
proof -
  have split: "nine_results = take 8 nine_results @ [score ''i'' 20]"
    and len: "length (take 8 nine_results) = 8" by code_simp+
  have l9: "length nine_results = 9"
    and m: "map moves nine_results = [30, 12, 45, 12, 60, 7, 45, 90, 20]" by code_simp+
  have v: "map moves (take 8 (sort_key moves nine_results)) = [7, 12, 12, 20, 30, 45, 45, 60]"
    and w: "map entry_id (take 8 (sort_key moves nine_results))
       = [''f'', ''b'', ''d'', ''i'', ''a'', ''c'', ''g'', ''e'']" by code_simp+
  note t = recordResult_keeps_lowest [of "[]" "score ''i'' 20" "take 8 nine_results"
      "score ''i'' 20", unfolded Let_def append_Nil split [symmetric] len]
  from t have f1: "foldl recordResult [] nine_results = take 8 (sort_key moves nine_results)"
    and f2: "sorted (map moves (foldl recordResult [] nine_results))"
    and f3: "length (foldl recordResult [] nine_results) = min 8 (length ([] :: ScoreEntry list) + 8 + 1)"
    by blast+
  from f3 have f3': "length (foldl recordResult [] nine_results) = 8" by simp
  from v have v': "map moves (foldl recordResult [] nine_results) = [7, 12, 12, 20, 30, 45, 45, 60]"
    by (simp only: f1)
  from w have w': "map entry_id (foldl recordResult [] nine_results)
       = [''f'', ''b'', ''d'', ''i'', ''a'', ''c'', ''g'', ''e'']"
    by (simp only: f1)
  from l9 m v' w' f1 f2 f3' show ?thesis by blast
qed

section \<open>Reading the rankings never fails\<close>




section \<open>Choosing another image on restart\<close>

lemma random_index_bounds:
  assumes "0 \<le> r" "r < 1" "0 < n"
  shows "0 \<le> \<lfloor>r * real n\<rfloor>" and "\<lfloor>r * real n\<rfloor> < int n" and "nat \<lfloor>r * real n\<rfloor> < n"
proof -
  from assms show a: "0 \<le> \<lfloor>r * real n\<rfloor>" by simp
  from assms have "r * real n < real n" by simp
  then show b: "\<lfloor>r * real n\<rfloor> < int n" by (simp add: floor_less_iff)
  from a b show "nat \<lfloor>r * real n\<rfloor> < n" by (metis nat_less_iff)
qed

lemma random_index_interval:
  assumes "0 \<le> r" "0 < n"
  shows "nat \<lfloor>r * real n\<rfloor> = j \<longleftrightarrow> real j / real n \<le> r \<and> r < (real j + 1) / real n"
proof -
  from assms have nn: "0 \<le> \<lfloor>r * real n\<rfloor>" by simp
  then have "nat \<lfloor>r * real n\<rfloor> = j \<longleftrightarrow> \<lfloor>r * real n\<rfloor> = int j" by auto
  also have "\<dots> \<longleftrightarrow> real j \<le> r * real n \<and> r * real n < real j + 1"
    by (auto simp: floor_eq_iff)
  also have "\<dots> \<longleftrightarrow> real j / real n \<le> r \<and> r < (real j + 1) / real n"
    using assms(2) by (simp add: pos_divide_le_eq pos_less_divide_eq)
  finally show ?thesis .
qed

lemma others_nonempty:
  assumes "distinct (map get_id items)" "1 < length items"
  shows "filter (\<lambda>entry. get_id entry \<noteq> x) items \<noteq> []"
proof
  assume "filter (\<lambda>entry. get_id entry \<noteq> x) items = []"
  then have all: "\<forall>entry\<in>set items. get_id entry = x" by (simp add: filter_empty_conv)
  from assms(2) have l: "0 < length items" "1 < length items" by auto
  then have "items ! 0 \<in> set items" "items ! 1 \<in> set items" by (auto intro: nth_mem)
  with all have "get_id (items ! 0) = get_id (items ! 1)" by simp
  with l have "map get_id items ! 0 = map get_id items ! 1" by simp
  moreover from assms(1) l have "map get_id items ! 0 \<noteq> map get_id items ! 1"
    by (simp add: nth_eq_iff_index_eq del: nth_map)
  ultimately show False by simp
qed

lemma randomFrom_excluding:
  assumes "0 \<le> r" "r < 1" "distinct (map get_id items)" "1 < length items" "x \<noteq> []"
  shows "(let filtered = filter (\<lambda>entry. get_id entry \<noteq> x) items;
              n = length filtered;
              k = nat \<lfloor>r * real n\<rfloor>
          in 0 < n \<and> k < n
           \<and> set filtered = {entry \<in> set items. get_id entry \<noteq> x}
           \<and> randomFrom get_id items (Some x) r = Inr (Some (filtered ! k))
           \<and> filtered ! k \<in> set items \<and> get_id (filtered ! k) \<noteq> x
           \<and> (\<forall>j<n. k = j \<longleftrightarrow> real j / real n \<le> r \<and> r < (real j + 1) / real n))"
proof -
  define filtered where "filtered = filter (\<lambda>entry. get_id entry \<noteq> x) items"
  define n where "n = length filtered"
  define k where "k = nat \<lfloor>r * real n\<rfloor>"
  have n: "0 < n" using others_nonempty [OF assms(3,4), of x] by (simp add: n_def filtered_def)
  note b = random_index_bounds [OF assms(1,2) n]
  have kn: "k < n" using b(3) by (simp add: k_def)
  have sf: "set filtered = {entry \<in> set items. get_id entry \<noteq> x}" by (auto simp: filtered_def)
  have "js_at filtered \<lfloor>r * real n\<rfloor> = Some (filtered ! k)"
    using b by (simp add: js_at_def n_def k_def)
  moreover from assms(4) have "items \<noteq> []" by auto
  ultimately have rf: "randomFrom get_id items (Some x) r = Inr (Some (filtered ! k))"
    using assms(4,5) by (simp add: randomFrom_def Let_def filtered_def [symmetric] n_def [symmetric])
  have "filtered ! k \<in> set filtered" using kn by (simp add: n_def)
  with sf have mem: "filtered ! k \<in> set items" "get_id (filtered ! k) \<noteq> x" by auto
  have iv: "\<forall>j<n. k = j \<longleftrightarrow> real j / real n \<le> r \<and> r < (real j + 1) / real n"
    using random_index_interval [OF assms(1) n] by (simp add: k_def)
  from n kn sf rf mem iv show ?thesis
    unfolding Let_def filtered_def [symmetric] n_def [symmetric] k_def [symmetric] by blast
qed

lemma randomFrom_single:
  assumes "0 \<le> r" "r < 1"
  shows "randomFrom get_id [a] excludeId r = Inr (Some a)"
proof -
  from assms have "\<lfloor>r\<rfloor> = 0" by (simp add: floor_eq_iff)
  with assms(1) show ?thesis by (simp add: randomFrom_def js_at_def Let_def split: option.splits)
qed

lemma demonImages_ids:
  "distinct (map image_id demonImages)" "1 < length demonImages" "[] \<notin> set (map image_id demonImages)"
  by (simp_all add: demonImages_def)

lemma randomFrom_no_exclusion:
  assumes "0 \<le> r" "r < 1" "items \<noteq> []"
  shows "\<exists>img\<in>set items. randomFrom get_id items (Some []) r = Inr (Some img)"
proof -
  from assms(3) have n: "0 < length items" by simp
  note b = random_index_bounds [OF assms(1,2) n]
  then have "js_at items \<lfloor>r * real (length items)\<rfloor> = Some (items ! nat \<lfloor>r * real (length items)\<rfloor>)"
    by (simp add: js_at_def)
  with b(3) assms(3) show ?thesis by (auto simp: randomFrom_def)
qed

lemma randomFrom_demonImages:
  assumes "0 \<le> r" "r < 1"
  shows "\<exists>img\<in>set demonImages. randomFrom image_id demonImages (Some x) r = Inr (Some img)
           \<and> image_id img \<noteq> x"
proof (cases "x = []")
  case True
  have "demonImages \<noteq> []" using demonImages_ids(2) by auto
  from randomFrom_no_exclusion [OF assms this, of image_id]
  obtain img where "img \<in> set demonImages"
    "randomFrom image_id demonImages (Some []) r = Inr (Some img)" by auto
  moreover from this demonImages_ids(3) have "image_id img \<noteq> []"
    by (metis image_eqI set_map)
  ultimately show ?thesis using True by auto
next
  case False
  from randomFrom_excluding [OF assms demonImages_ids(1,2) False]
  show ?thesis unfolding Let_def by blast
qed

text \<open>
  Claim C9. With \<open>Math.random ()\<close> in \<open>[0, 1)\<close>: from a catalog of more than one entry
  with distinct identifiers, excluding a non-empty identifier, \<open>randomFrom\<close> returns a
  member of the catalog with another identifier, namely the entry number
  \<open>floor (r * n)\<close> of the \<open>n\<close> remaining entries; entry \<open>j\<close> is chosen exactly for \<open>r\<close> in
  \<open>[j / n, (j + 1) / n)\<close>, intervals of one length, so a uniform \<open>r\<close> gives a uniform choice.
  From a catalog of one entry that entry is returned, the current one included. A restart
  with \<open>randomImage = true\<close> installs the image that \<open>randomFrom\<close> picks from \<open>demonImages\<close>
  excluding the current identifier: a catalog image other than the current one.
\<close>

theorem restart_picks_another_image:
  assumes "0 \<le> r" and "r < 1"
  shows "(distinct (map get_id items) \<and> 1 < length items \<and> x \<noteq> [] \<longrightarrow>
            (let filtered = filter (\<lambda>entry. get_id entry \<noteq> x) items;
                 n = length filtered;
                 k = nat \<lfloor>r * real n\<rfloor>
             in 0 < n \<and> k < n
              \<and> set filtered = {entry \<in> set items. get_id entry \<noteq> x}
              \<and> randomFrom get_id items (Some x) r = Inr (Some (filtered ! k))
              \<and> filtered ! k \<in> set items \<and> get_id (filtered ! k) \<noteq> x
              \<and> (\<forall>j<n. k = j \<longleftrightarrow> real j / real n \<le> r \<and> r < (real j + 1) / real n)))
       \<and> randomFrom get_id [a] (Some x) r = Inr (Some a)
       \<and> (startPuzzle \<lparr>randomImage = Some True, targetDifficultyId = t\<rparr> r rnd s = Some (Inr s') \<longrightarrow>
            randomFrom image_id demonImages (Some (image_id (currentImage s))) r
              = Inr (Some (currentImage s'))
            \<and> currentImage s' \<in> set demonImages
            \<and> image_id (currentImage s') \<noteq> image_id (currentImage s))"
proof (intro conjI impI)
  assume "distinct (map get_id items) \<and> 1 < length items \<and> x \<noteq> []"
  with randomFrom_excluding [OF assms, of get_id items x]
  show "(let filtered = filter (\<lambda>entry. get_id entry \<noteq> x) items;
             n = length filtered;
             k = nat \<lfloor>r * real n\<rfloor>
         in 0 < n \<and> k < n
          \<and> set filtered = {entry \<in> set items. get_id entry \<noteq> x}
          \<and> randomFrom get_id items (Some x) r = Inr (Some (filtered ! k))
          \<and> filtered ! k \<in> set items \<and> get_id (filtered ! k) \<noteq> x
          \<and> (\<forall>j<n. k = j \<longleftrightarrow> real j / real n \<le> r \<and> r < (real j + 1) / real n))" by blast
next
  show "randomFrom get_id [a] (Some x) r = Inr (Some a)" by (rule randomFrom_single [OF assms])
next
  assume sp: "startPuzzle \<lparr>randomImage = Some True, targetDifficultyId = t\<rparr> r rnd s = Some (Inr s')"
  from randomFrom_demonImages [OF assms, of "image_id (currentImage s)"]
  obtain img where img: "img \<in> set demonImages"
    "randomFrom image_id demonImages (Some (image_id (currentImage s))) r = Inr (Some img)"
    "image_id img \<noteq> image_id (currentImage s)" by blast
  from sp img(2) have "currentImage s' = img"
    by (auto simp: startPuzzle_def Let_def split: option.splits)
  with img show "randomFrom image_id demonImages (Some (image_id (currentImage s))) r
              = Inr (Some (currentImage s'))"
    and "currentImage s' \<in> set demonImages"
    and "image_id (currentImage s') \<noteq> image_id (currentImage s)" by simp_all
qed

theorem restart_picks_another_image_witness:
  "(0::real) \<le> 1 / 2 \<and> (1 / 2 :: real) < 1
   \<and> image_id (currentImage (session_state [] Idle 0)) = ''starlit-reaper''
   \<and> randomFrom image_id demonImages (Some ''starlit-reaper'') (1 / 2) = Inr (Some (demonImages ! 2))
   \<and> image_id (demonImages ! 2) = ''crimson-halo''
   \<and> randomFrom image_id [hd demonImages] (Some ''starlit-reaper'') (1 / 2)
       = Inr (Some (hd demonImages))
   \<and> startPuzzle \<lparr>randomImage = Some True, targetDifficultyId = None\<rparr> (1 / 2) example_rnd
         (session_state [] Idle 0)
       = Some (Inr (fresh_board\<lparr>currentImage := demonImages ! 2\<rparr>))
   \<and> currentImage (fresh_board\<lparr>currentImage := demonImages ! 2\<rparr>) \<in> set demonImages"
proof -
  have r0: "(0::real) \<le> 1 / 2" and r1: "(1 / 2 :: real) < 1" by simp_all
  have cur: "image_id (currentImage (session_state [] Idle 0)) = ''starlit-reaper''" by code_simp
  have cat: "distinct (map image_id demonImages) \<and> 1 < length demonImages
      \<and> ''starlit-reaper'' \<noteq> []"
    using demonImages_ids by simp
  have pick: "filter (\<lambda>entry. image_id entry \<noteq> ''starlit-reaper'') demonImages !
      nat \<lfloor>1 / 2 * real (length (filter (\<lambda>entry. image_id entry \<noteq> ''starlit-reaper'')
        demonImages))\<rfloor> = demonImages ! 2" by code_simp
  have name: "image_id (demonImages ! 2) = ''crimson-halo''" by code_simp
  have sp: "startPuzzle \<lparr>randomImage = Some True, targetDifficultyId = None\<rparr> (1 / 2) example_rnd
         (session_state [] Idle 0)
       = Some (Inr (fresh_board\<lparr>currentImage := demonImages ! 2\<rparr>))" by code_simp
  note t = restart_picks_another_image [OF r0 r1, of image_id demonImages "''starlit-reaper''"
      "hd demonImages" None example_rnd "session_state [] Idle 0"
      "fresh_board\<lparr>currentImage := demonImages ! 2\<rparr>", unfolded Let_def pick]
  from t cat have a: "randomFrom image_id demonImages (Some ''starlit-reaper'') (1 / 2)
      = Inr (Some (demonImages ! 2))" by blast
  from t have b: "randomFrom image_id [hd demonImages] (Some ''starlit-reaper'') (1 / 2)
       = Inr (Some (hd demonImages))" by blast
  from t sp have c: "currentImage (fresh_board\<lparr>currentImage := demonImages ! 2\<rparr>) \<in> set demonImages"
    by blast
  from r0 r1 cur a name b sp c show ?thesis by blast
qed

end
